theory Spec2Isabelle
  imports Complex_Main "HOL-Library.Sublist"
begin

section \<open>JavaScript numbers\<close>

text \<open>
  A JavaScript number is modelled as an exact real or one of the three non-finite values
  of IEEE arithmetic. Rounding to double precision and the sign of zero are not modelled.
  Only the operations the session code performs on possibly non-finite operands are
  defined: \<open>a / b\<close> on finite operands, \<open>x * c\<close> and \<open>c - x\<close> with \<open>c\<close> finite, and
  \<open>Math.max(c, x)\<close>. Their finite results are taken to be in the range of a double;
  overflow is written out below for the one computation whose operand doubles with
  every iteration, the back-off of the request executor.
\<close>

datatype jsnum = Fin real | NaN | PInf | NInf

definition js_div :: "real \<Rightarrow> real \<Rightarrow> jsnum" where
  "js_div a b =
     (if b \<noteq> 0 then Fin (a / b) else if a = 0 then NaN else if 0 < a then PInf else NInf)"

fun js_times :: "jsnum \<Rightarrow> real \<Rightarrow> jsnum" where
  "js_times (Fin a) c = Fin (a * c)"
| "js_times NaN c = NaN"
| "js_times PInf c = (if 0 < c then PInf else if c < 0 then NInf else NaN)"
| "js_times NInf c = (if 0 < c then NInf else if c < 0 then PInf else NaN)"

fun js_rsub :: "real \<Rightarrow> jsnum \<Rightarrow> jsnum" where
  "js_rsub c (Fin a) = Fin (c - a)"
| "js_rsub c NaN = NaN"
| "js_rsub c PInf = NInf"
| "js_rsub c NInf = PInf"

fun js_max :: "real \<Rightarrow> jsnum \<Rightarrow> jsnum" where
  "js_max c (Fin a) = Fin (max c a)"
| "js_max c NaN = NaN"
| "js_max c PInf = PInf"
| "js_max c NInf = Fin c"

subsection \<open>Overflow\<close>

text \<open>
  The largest double is \<open>2^1024 - 2^971\<close>. A result whose magnitude reaches
  \<open>2^1024 - 2^970\<close>, half a unit in the last place above it, is rounded to an infinity.
\<close>

definition overflow :: "real \<Rightarrow> jsnum" where
  "overflow x =
     (if 2 ^ 1024 - 2 ^ 970 \<le> x then PInf
      else if x \<le> - (2 ^ 1024 - 2 ^ 970) then NInf
      else Fin x)"

text \<open>\<open>x * c\<close> and \<open>x + c\<close> with \<open>c\<close> finite, where the result can overflow.\<close>

fun js_product :: "jsnum \<Rightarrow> real \<Rightarrow> jsnum" where
  "js_product (Fin a) c = overflow (a * c)"
| "js_product NaN c = NaN"
| "js_product PInf c = (if 0 < c then PInf else if c < 0 then NInf else NaN)"
| "js_product NInf c = (if 0 < c then NInf else if c < 0 then PInf else NaN)"

fun js_sum :: "jsnum \<Rightarrow> real \<Rightarrow> jsnum" where
  "js_sum (Fin a) c = overflow (a + c)"
| "js_sum NaN c = NaN"
| "js_sum PInf c = PInf"
| "js_sum NInf c = NInf"

subsection \<open>\<open>Number.prototype.toFixed(1)\<close>\<close>

definition digit :: "nat \<Rightarrow> char" where
  "digit n = ''0123456789'' ! (n mod 10)"

fun show_nat :: "nat \<Rightarrow> string" where
  "show_nat n = (if n < 10 then [digit n] else show_nat (n div 10) @ [digit n])"

declare show_nat.simps [simp del]

text \<open>
  \<open>toFixed(1)\<close> prints \<open>NaN\<close> and the infinities by name; for a finite value it takes the
  integer \<open>n\<close> with \<open>n / 10\<close> nearest to the magnitude (the larger one on a tie) and prints
  it with one fraction digit. Magnitudes of \<open>10^21\<close> and more, which JavaScript prints in
  exponent form, are printed in the same positional form here. JavaScript rounds the
  double, the function below the exact real: where the real lies midway between two
  tenths and the double nearest to it does not (\<open>0.35\<close>, whose double is a little
  smaller, is printed \<open>0.3\<close> by JavaScript and \<open>0.4\<close> here), the last digit differs. The
  properties below state what is printed for \<open>0\<close> and for \<open>NaN\<close> only, where the two
  agree.
\<close>

definition fixed1 :: "real \<Rightarrow> string" where
  "fixed1 v = (let n = nat \<lfloor>v * 10 + 1 / 2\<rfloor> in show_nat (n div 10) @ ''.'' @ show_nat (n mod 10))"

definition toFixed1 :: "jsnum \<Rightarrow> string" where
  "toFixed1 x =
     (case x of
        NaN \<Rightarrow> ''NaN''
      | PInf \<Rightarrow> ''Infinity''
      | NInf \<Rightarrow> ''-Infinity''
      | Fin v \<Rightarrow> (if v < 0 then ''-'' @ fixed1 (- v) else fixed1 v))"

section \<open>Data model\<close>

text \<open>
  The configuration object handed to \<open>new TrafficSession(config)\<close>. The host reads
  \<open>impressions\<close>, \<open>delay\<close> and \<open>maxRetries\<close> with \<open>parseInt\<close>, and the model takes the
  three to be integers. (\<open>parseInt\<close> gives \<open>NaN\<close> for a field without digits. The host's
  \<open>validateForm\<close> turns a \<open>NaN\<close> in \<open>impressions\<close> away but lets one through in \<open>delay\<close>
  and \<open>maxRetries\<close>; such configurations are outside the model. With a \<open>NaN\<close> delay the
  width is \<open>NaN\<close> and the primary pass runs no batch.)
  \<open>proxyQuality\<close> is the string the \<open>switch\<close> of \<open>adjustConcurrency\<close> compares.
  The fields \<open>adUrl\<close>, \<open>country\<close>, \<open>deviceType\<close> and \<open>enableReferrer\<close> only shape the
  request headers and the log lines and are left out.
\<close>

record session_config =
  impressions :: int
  delay :: int
  proxyQuality :: string
  maxRetries :: int
  enableJitter :: bool

text \<open>
  A request object of \<open>generateRequestQueue\<close>. Its \<open>deviceProfile\<close> is opaque, and its
  \<open>timestamp\<close> and \<open>status\<close> are written once (\<open>null\<close>, \<open>'pending'\<close>) and never again.
\<close>

record request =
  req_id :: nat
  retryCount :: nat

text \<open>
  \<open>this.stats\<close>. The two timestamps \<open>startTime\<close> and \<open>lastBatchTime\<close> enter the code
  only through differences with \<open>Date.now()\<close>; those differences are readings of the
  environment below.
\<close>

record session_stats =
  sent :: nat
  successful :: nat
  failed :: nat
  total :: int
  batchCount :: nat

record performance_snapshot =
  averageResponseTime :: real
  requestsPerSecond :: real
  successRate :: real

text \<open>The object \<open>complete()\<close> hands to \<open>saveSessionResults\<close> (its rate and count fields).\<close>

record final_stats =
  totalRequests :: nat
  final_successful :: nat
  final_failed :: nat
  final_successRate :: string
  averageRate :: string

datatype pass = Primary | Retry

datatype timer = Backoff | StaggerWait | BatchGap | RetryStagger | RetryGap

text \<open>
  The history of a session: every \<open>fetch\<close> issued (pass, request, attempt index from 0),
  every timer awaited, every increment of a request's retry counter (request, new value)
  and every entry into the body of \<open>processRetryQueue\<close> (with the queue length it logs).
\<close>

datatype event =
    Fetch pass nat nat
  | Sleep timer jsnum
  | Bump nat nat
  | RetryPass nat

text \<open>
  A request object is referred to by its position in \<open>requestQueue\<close>: a batch (a
  \<open>slice\<close> of the queue), the retry queue and a batch's \<open>AbortController\<close>s all hold
  such references, so an update of \<open>retryCount\<close> is seen through every one of them.
  \<open>aborted\<close> lists the primary-pass requests whose controller had \<open>abort()\<close> called;
  \<open>trafficSessions\<close> is the \<open>localStorage\<close> entry of that name.
\<close>

record session =
  config :: session_config
  isRunning :: bool
  currentBatch :: "nat list option"
  retryQueue :: "nat list"
  requestQueue :: "request list"
  concurrency :: int
  stats :: session_stats
  performance :: performance_snapshot
  aborted :: "nat list"
  history :: "event list"
  trafficSessions :: "final_stats list"

section \<open>The environment\<close>

text \<open>
  What a \<open>fetch\<close> promise settles to: a response with a status code, or a rejection
  (a transport error, or the \<open>AbortError\<close> of an aborted signal).
\<close>

datatype response = Http nat | Rejected

text \<open>The places where \<open>Math.random()\<close> is drawn for a delay.\<close>

datatype draw = StaggerDraw nat nat | BackoffDraw pass nat nat | GapDraw nat

text \<open>
  The places where the scheduler awaits and a \<open>stop()\<close> call of the host can run: the
  stagger wait after firing request \<open>j\<close> of batch \<open>b\<close>, the join of batch \<open>b\<close>, the adaptive
  wait after batch \<open>b\<close>, the join of retry chunk \<open>i\<close> and the wait after it.
\<close>

datatype point = Stagger nat nat | Join nat | Gap nat | RetryJoin nat | RetryGapPoint nat

text \<open>
  Everything the session does not decide itself. Requests of one batch run concurrently,
  so the environment is indexed by request and attempt rather than by the order of calls:
  \<open>fetch p r a\<close> is what attempt \<open>a\<close> of request \<open>r\<close> in pass \<open>p\<close> settles to,
  \<open>mathRandom\<close> the draws, \<open>durationMs p r\<close> the value of \<open>Date.now() - startTime\<close>
  at the terminal outcome of the request, \<open>elapsedMs p r\<close> the value of
  \<open>Date.now() - this.stats.startTime\<close> in its metrics update, \<open>sessionMs\<close> the same
  difference in \<open>complete()\<close>, and \<open>stopAt\<close> the awaits during which the host calls
  \<open>stop()\<close>.
\<close>

record env =
  fetch :: "pass \<Rightarrow> nat \<Rightarrow> nat \<Rightarrow> response"
  mathRandom :: "draw \<Rightarrow> real"
  durationMs :: "pass \<Rightarrow> nat \<Rightarrow> int"
  elapsedMs :: "pass \<Rightarrow> nat \<Rightarrow> int"
  sessionMs :: int
  stopAt :: "point \<Rightarrow> bool"

section \<open>Construction\<close>

text \<open>\<open>generateRequestQueue\<close>: one request per \<open>i\<close> with \<open>0 \<le> i < impressions\<close>.\<close>

definition generateRequestQueue :: "session \<Rightarrow> session" where
  "generateRequestQueue s =
     s\<lparr>requestQueue :=
         map (\<lambda>i. \<lparr>req_id = i + 1, retryCount = 0\<rparr>) [0..<nat (impressions (config s))]\<rparr>"

subsection \<open>Concurrency planner\<close>

text \<open>
  \<open>Math.max(1, Math.min(10, Math.floor(1000 / this.config.delay)))\<close> for an integer
  delay. A delay of \<open>0\<close> makes the quotient \<open>Infinity\<close>, which \<open>Math.min(10, _)\<close> turns
  into \<open>10\<close>.
\<close>

definition baseConcurrency :: "int \<Rightarrow> int" where
  "baseConcurrency d =
     (if d = 0 then max 1 10 else max 1 (min 10 \<lfloor>1000 / real_of_int d\<rfloor>))"

definition adjustConcurrency :: "session \<Rightarrow> session" where
  "adjustConcurrency s =
     (let baseC = baseConcurrency (delay (config s)) in
      if proxyQuality (config s) = ''premium'' then s\<lparr>concurrency := min 8 baseC\<rparr>
      else if proxyQuality (config s) = ''balanced'' then s\<lparr>concurrency := min 12 baseC\<rparr>
      else if proxyQuality (config s) = ''aggressive'' then s\<lparr>concurrency := min 15 baseC\<rparr>
      else s\<lparr>concurrency := min 5 baseC\<rparr>)"

text \<open>The constructor, followed by \<open>initializeSession\<close>.\<close>

definition TrafficSession :: "session_config \<Rightarrow> session" where
  "TrafficSession c =
     adjustConcurrency (generateRequestQueue
       \<lparr>config = c, isRunning = False, currentBatch = None, retryQueue = [],
        requestQueue = [], concurrency = 5,
        stats = \<lparr>sent = 0, successful = 0, failed = 0, total = impressions c, batchCount = 0\<rparr>,
        performance = \<lparr>averageResponseTime = 0, requestsPerSecond = 0, successRate = 100\<rparr>,
        aborted = [], history = [], trafficSessions = []\<rparr>)"

section \<open>Session controller: stop and statistics\<close>

text \<open>
  \<open>stop()\<close>: clears the running flag and aborts the controllers held in
  \<open>currentBatch\<close>, if there are any.
\<close>

definition stop :: "session \<Rightarrow> session" where
  "stop s =
     (case currentBatch s of
        None \<Rightarrow> s\<lparr>isRunning := False\<rparr>
      | Some controllers \<Rightarrow>
          s\<lparr>isRunning := False, aborted := aborted s @ controllers, currentBatch := None\<rparr>)"

definition interrupt :: "env \<Rightarrow> point \<Rightarrow> session \<Rightarrow> session" where
  "interrupt e p s = (if stopAt e p then stop s else s)"

definition getStats :: "session \<Rightarrow> session_stats \<times> performance_snapshot" where
  "getStats s = (stats s, performance s)"

definition record_event :: "event list \<Rightarrow> session \<Rightarrow> session" where
  "record_event evs s = s\<lparr>history := history s @ evs\<rparr>"

section \<open>Performance tracker\<close>

text \<open>
  \<open>updatePerformanceMetrics(duration, success)\<close>, with \<open>timeElapsed\<close> (in seconds) read
  from the clock. The flag \<open>success\<close> is not used by the body.
\<close>

definition updatePerformanceMetrics :: "real \<Rightarrow> bool \<Rightarrow> real \<Rightarrow> session \<Rightarrow> session" where
  "updatePerformanceMetrics duration success timeElapsed s =
     s\<lparr>performance :=
         \<lparr>averageResponseTime = averageResponseTime (performance s) * 0.95 + duration * 0.05,
          requestsPerSecond = (if 0 < timeElapsed then real (sent (stats s)) / timeElapsed else 0),
          successRate =
            (if 0 < sent (stats s)
             then real (successful (stats s)) / real (sent (stats s)) * 100 else 100)\<rparr>\<rparr>"

section \<open>Request executor\<close>

definition ok :: "nat \<Rightarrow> bool" where
  "ok status = (200 \<le> status \<and> status \<le> 299)"

text \<open>
  What one pass through the \<open>try\<close> block does with the settled \<open>fetch\<close>: return a
  success object (with its \<open>note\<close>, if it has one) or throw into the \<open>catch\<close> block.
\<close>

datatype verdict = Delivered "string option" | Thrown

definition classify :: "response \<Rightarrow> verdict" where
  "classify rsp =
     (case rsp of
        Rejected \<Rightarrow> Thrown
      | Http status \<Rightarrow>
          if \<not> ok status then
            (if 500 \<le> status then Thrown
             else if 400 \<le> status then
               (if status = 404 \<or> status = 403
                then Delivered (Some (''HTTP '' @ show_nat status)) else Thrown)
             else Delivered None)
          else Delivered None)"

text \<open>
  \<open>Math.pow(2, attempt) * 100 + Math.random() * 100\<close>. The power is a double up to
  \<open>attempt = 1023\<close> and its product with 100 up to \<open>attempt = 1017\<close>; beyond, the value
  is \<open>Infinity\<close>.
\<close>

definition backoffDelay :: "nat \<Rightarrow> real \<Rightarrow> jsnum" where
  "backoffDelay attempt rnd = js_sum (js_product (overflow (2 ^ attempt)) 100) (rnd * 100)"

text \<open>
  What a batch sees of a request: the success object, the object built by the \<open>.catch\<close>
  handler after \<open>executeRequest\<close> threw, or \<open>undefined\<close> when the \<open>while\<close> loop ended
  without a \<open>return\<close>.
\<close>

datatype result = Success "string option" | Failure | Undefined

text \<open>
  The \<open>while (attempt < maxAttempts)\<close> loop of \<open>executeRequest\<close>, with the events it
  causes. \<open>attempt\<close> is incremented in the \<open>catch\<close> block before the comparison with
  \<open>maxAttempts\<close> and before the back-off is computed.
\<close>

function executeRequest_loop ::
  "env \<Rightarrow> session_config \<Rightarrow> pass \<Rightarrow> nat \<Rightarrow> nat \<Rightarrow> result \<times> event list" where
  "executeRequest_loop e c p r attempt =
     (if int attempt < maxRetries c then
        (case classify (fetch e p r attempt) of
           Delivered note \<Rightarrow> (Success note, [Fetch p r attempt])
         | Thrown \<Rightarrow>
             if int (Suc attempt) = maxRetries c then (Failure, [Fetch p r attempt])
             else
               (let (res, evs) = executeRequest_loop e c p r (Suc attempt) in
                (res,
                 Fetch p r attempt #
                 Sleep Backoff
                   (backoffDelay (Suc attempt) (mathRandom e (BackoffDraw p r (Suc attempt)))) #
                 evs)))
      else (Undefined, []))"
  by pat_completeness auto
termination
  by (relation "measure (\<lambda>(e, c, p, r, attempt). nat (maxRetries c - int attempt))") auto

declare executeRequest_loop.simps [simp del]

text \<open>
  \<open>executeRequest\<close> with the \<open>.catch\<close> handler of its caller: the loop, and the metrics
  update that precedes every \<open>return\<close> and the final \<open>throw\<close>.
\<close>

definition executeRequest :: "env \<Rightarrow> pass \<Rightarrow> nat \<Rightarrow> session \<Rightarrow> result \<times> session" where
  "executeRequest e p r s =
     (let (res, evs) = executeRequest_loop e (config s) p r 0;
          s1 = record_event evs s
      in (res,
          if res = Undefined then s1
          else updatePerformanceMetrics (real_of_int (durationMs e p r)) (res \<noteq> Failure)
                 (real_of_int (elapsedMs e p r) / 1000) s1))"

text \<open>
  The requests of a batch settle concurrently. Each touches only \<open>performance\<close> and the
  history, and reads counters that change at joins only, so they are folded in launch
  order.
\<close>

fun settle :: "env \<Rightarrow> pass \<Rightarrow> nat list \<Rightarrow> session \<Rightarrow> (nat \<times> result) list \<times> session" where
  "settle e p [] s = ([], s)"
| "settle e p (r # rs) s =
     (let (res, s1) = executeRequest e p r s;
          (rest, s2) = settle e p rs s1
      in ((r, res) # rest, s2))"

section \<open>Batch scheduler\<close>

text \<open>
  One call of the \<open>forEach\<close> callback of \<open>processBatchResults\<close>, on the result of
  request \<open>r\<close>. On \<open>undefined\<close> the test \<open>result.value.success\<close> raises a
  \<open>TypeError\<close> after \<open>sent\<close> was incremented; the function gives the state at that
  moment.
\<close>

definition processResult :: "nat \<Rightarrow> result \<Rightarrow> session \<Rightarrow> session" where
  "processResult r res s =
     (let s1 = s\<lparr>stats := (stats s)\<lparr>sent := sent (stats s) + 1\<rparr>\<rparr> in
      case res of
        Undefined \<Rightarrow> s1
      | Success note \<Rightarrow> s1\<lparr>stats := (stats s1)\<lparr>successful := successful (stats s1) + 1\<rparr>\<rparr>
      | Failure \<Rightarrow>
          (let s2 = s1\<lparr>stats := (stats s1)\<lparr>failed := failed (stats s1) + 1\<rparr>\<rparr> in
           if length (retryQueue s2) < 1000 then
             (let n = retryCount (requestQueue s2 ! r) + 1;
                  s3 = record_event [Bump r n]
                         (s2\<lparr>requestQueue :=
                               (requestQueue s2)[r := (requestQueue s2 ! r)\<lparr>retryCount := n\<rparr>]\<rparr>)
              in if int n \<le> maxRetries (config s3)
                 then s3\<lparr>retryQueue := retryQueue s3 @ [r]\<rparr> else s3)
           else s2))"

text \<open>
  \<open>processBatchResults\<close>: the \<open>forEach\<close> over the results. The \<open>TypeError\<close> of an
  \<open>undefined\<close> result leaves the loop and is caught by \<open>processBatch\<close>, so the results
  after it are not counted.
\<close>

fun processBatchResults :: "(nat \<times> result) list \<Rightarrow> session \<Rightarrow> session" where
  "processBatchResults [] s = s"
| "processBatchResults ((r, res) # rest) s =
     (if res = Undefined then processResult r res s
      else processBatchResults rest (processResult r res s))"

text \<open>\<open>Math.random() * 0.4 + 0.8\<close>\<close>

definition jitterFactor :: "real \<Rightarrow> real" where
  "jitterFactor rnd = rnd * 0.4 + 0.8"

text \<open>
  The \<open>for (const request of batch)\<close> loop of \<open>processBatch\<close>: it fires the requests and,
  with jitter enabled, awaits the stagger delay after each; it gives the requests fired.
  \<open>(this.config.delay / this.concurrency) * jitter\<close>
\<close>

fun launch :: "env \<Rightarrow> nat \<Rightarrow> nat \<Rightarrow> nat list \<Rightarrow> session \<Rightarrow> nat list \<times> session" where
  "launch e b j [] s = ([], s)"
| "launch e b j (r # rs) s =
     (if \<not> isRunning s then ([], s)
      else
        (let s1 =
               (if enableJitter (config s)
                then interrupt e (Stagger b j)
                       (record_event
                          [Sleep StaggerWait
                             (js_times
                                (js_div (real_of_int (delay (config s)))
                                   (real_of_int (concurrency s)))
                                (jitterFactor (mathRandom e (StaggerDraw b j))))] s)
                else s);
             (fired, s2) = launch e b (Suc j) rs s1
         in (r # fired, s2)))"

text \<open>
  \<open>processBatch\<close>: fire, publish the controllers in \<open>currentBatch\<close>, await the join
  (where a \<open>stop()\<close> aborts them), count the results.
\<close>

definition processBatch :: "env \<Rightarrow> nat list \<Rightarrow> nat \<Rightarrow> session \<Rightarrow> session" where
  "processBatch e batch batchIndex s =
     (let (controllers, s1) = launch e batchIndex 0 batch s;
          s2 = interrupt e (Join batchIndex) (s1\<lparr>currentBatch := Some controllers\<rparr>);
          (results, s3) = settle e Primary controllers s2;
          s4 = processBatchResults results s3
      in s4\<lparr>currentBatch := None, stats := (stats s4)\<lparr>batchCount := batchCount (stats s4) + 1\<rparr>\<rparr>)"

subsection \<open>Adaptive delay\<close>

definition adaptiveDelay_ms :: "session \<Rightarrow> nat \<Rightarrow> real \<Rightarrow> jsnum" where
  "adaptiveDelay_ms s batchIndex rnd =
     (let d0 = real_of_int (delay (config s));
          d1 = (if 10 < batchIndex then
                  (let progress = js_div (real (sent (stats s))) (real_of_int (total (stats s)))
                   in js_max 200 (js_times (js_rsub 1 (js_times progress 0.3)) d0))
                else Fin d0)
      in if enableJitter (config s) then js_times d1 (jitterFactor rnd) else d1)"

definition adaptiveDelay :: "env \<Rightarrow> nat \<Rightarrow> session \<Rightarrow> session" where
  "adaptiveDelay e batchIndex s =
     interrupt e (Gap batchIndex)
       (record_event [Sleep BatchGap (adaptiveDelay_ms s batchIndex (mathRandom e (GapDraw batchIndex)))] s)"

subsection \<open>The primary pass\<close>

definition slice :: "'a list \<Rightarrow> nat \<Rightarrow> nat \<Rightarrow> 'a list" where
  "slice xs startIdx endIdx = take (endIdx - startIdx) (drop startIdx xs)"

text \<open>
  \<open>Math.ceil(length / width)\<close>. The width is an integer from 1 to 10 in every session the
  constructor builds.
\<close>

definition ceil_div :: "nat \<Rightarrow> int \<Rightarrow> nat" where
  "ceil_div n w = nat \<lceil>real n / real_of_int w\<rceil>"

text \<open>The body of the \<open>for\<close> loop of \<open>processOptimizedBatches\<close>, after its \<open>break\<close> test.\<close>

definition processOptimizedBatches_body :: "env \<Rightarrow> nat \<Rightarrow> nat \<Rightarrow> session \<Rightarrow> session" where
  "processOptimizedBatches_body e totalBatches batchIndex s =
     (let startIdx = batchIndex * nat (concurrency s);
          endIdx = min (startIdx + nat (concurrency s)) (length (requestQueue s));
          batch = slice [0..<length (requestQueue s)] startIdx endIdx;
          s1 = processBatch e batch batchIndex s
      in if isRunning s1 \<and> int batchIndex < int totalBatches - 1
         then adaptiveDelay e batchIndex s1 else s1)"

function processOptimizedBatches_loop :: "env \<Rightarrow> nat \<Rightarrow> nat \<Rightarrow> session \<Rightarrow> session" where
  "processOptimizedBatches_loop e totalBatches batchIndex s =
     (if batchIndex < totalBatches then
        (if \<not> isRunning s then s
         else processOptimizedBatches_loop e totalBatches (Suc batchIndex)
                (processOptimizedBatches_body e totalBatches batchIndex s))
      else s)"
  by pat_completeness auto
termination
  by (relation "measure (\<lambda>(e, totalBatches, batchIndex, s). totalBatches - batchIndex)") auto

declare processOptimizedBatches_loop.simps [simp del]

definition processOptimizedBatches :: "env \<Rightarrow> session \<Rightarrow> session" where
  "processOptimizedBatches e s =
     processOptimizedBatches_loop e (ceil_div (length (requestQueue s)) (concurrency s)) 0 s"

section \<open>Retry queue processor\<close>

text \<open>
  An \<open>async\<close> function either returns or rejects with the \<open>TypeError\<close> that the test
  \<open>result.value.success\<close> raises on an \<open>undefined\<close> result; nothing in
  \<open>processRetryQueue\<close> or \<open>start\<close> catches it. Both carry the session as it is then.
\<close>

datatype 'a completion = Returned 'a | TypeError 'a

text \<open>The counting \<open>forEach\<close> of a retry chunk; \<open>None\<close> is the \<open>TypeError\<close>.\<close>

fun countRetryResults :: "(nat \<times> result) list \<Rightarrow> nat \<times> nat \<Rightarrow> (nat \<times> nat) option" where
  "countRetryResults [] cnt = Some cnt"
| "countRetryResults ((r, res) # rest) (retrySuccessful, retryFailed) =
     (case res of
        Undefined \<Rightarrow> None
      | Success note \<Rightarrow> countRetryResults rest (retrySuccessful + 1, retryFailed)
      | Failure \<Rightarrow> countRetryResults rest (retrySuccessful, retryFailed + 1))"

text \<open>
  The \<open>for\<close> loop of \<open>processRetryQueue\<close>. Request \<open>index\<close> of a chunk is fired after
  \<open>index * 100\<close> ms, on a fresh controller that nothing else holds.
\<close>

function processRetryQueue_loop ::
  "env \<Rightarrow> nat \<Rightarrow> nat \<Rightarrow> nat \<Rightarrow> nat \<times> nat \<Rightarrow> session \<Rightarrow> ((nat \<times> nat) \<times> session) completion" where
  "processRetryQueue_loop e retryConcurrency retryBatches i cnt s =
     (if i < retryBatches then
        (if \<not> isRunning s then Returned (cnt, s)
         else
           (let startIdx = i * retryConcurrency;
                endIdx = min (startIdx + retryConcurrency) (length (retryQueue s));
                retryBatch = slice (retryQueue s) startIdx endIdx;
                s1 = record_event
                       (map (\<lambda>index. Sleep RetryStagger (Fin (real index * 100)))
                          [0..<length retryBatch]) s;
                s2 = interrupt e (RetryJoin i) s1;
                (results, s3) = settle e Retry retryBatch s2
            in case countRetryResults results cnt of
                 None \<Rightarrow> TypeError (cnt, s3)
               | Some cnt' \<Rightarrow>
                   (let s4 = (if int i < int retryBatches - 1
                              then interrupt e (RetryGapPoint i)
                                     (record_event [Sleep RetryGap (Fin 500)] s3)
                              else s3)
                    in processRetryQueue_loop e retryConcurrency retryBatches (Suc i) cnt' s4)))
      else Returned (cnt, s))"
  by pat_completeness auto
termination
  by (relation "measure (\<lambda>(e, retryConcurrency, retryBatches, i, cnt, s). retryBatches - i)") auto

declare processRetryQueue_loop.simps [simp del]

definition processRetryQueue :: "env \<Rightarrow> session \<Rightarrow> session completion" where
  "processRetryQueue e s =
     (if length (retryQueue s) = 0 then Returned s
      else
        (let s0 = record_event [RetryPass (length (retryQueue s))] s;
             retryConcurrency = max 1 (concurrency s div 2);
             retryBatches = ceil_div (length (retryQueue s0)) retryConcurrency
         in case processRetryQueue_loop e (nat retryConcurrency) retryBatches 0 (0, 0) s0 of
              TypeError (cnt, s1) \<Rightarrow> TypeError s1
            | Returned ((retrySuccessful, retryFailed), s1) \<Rightarrow>
                Returned
                  (s1\<lparr>stats := (stats s1)\<lparr>successful := successful (stats s1) + retrySuccessful,
                                           failed := failed (stats s1) + retryFailed\<rparr>,
                      retryQueue := []\<rparr>)))"

section \<open>Session controller: start and finalization\<close>

text \<open>\<open>sessions.push(sessionData)\<close>, then \<open>sessions.slice(-10)\<close> is stored.\<close>

definition saveSessionResults :: "final_stats \<Rightarrow> session \<Rightarrow> session" where
  "saveSessionResults st s =
     (let sessions = trafficSessions s @ [st]
      in s\<lparr>trafficSessions := drop (length sessions - 10) sessions\<rparr>)"

definition complete :: "env \<Rightarrow> session \<Rightarrow> session" where
  "complete e s =
     (let s1 = s\<lparr>isRunning := False\<rparr>;
          sessionDuration = real_of_int (sessionMs e) / 1000;
          finalStats =
            \<lparr>totalRequests = sent (stats s1),
             final_successful = successful (stats s1),
             final_failed = failed (stats s1),
             final_successRate =
               toFixed1 (js_times (js_div (real (successful (stats s1))) (real (sent (stats s1)))) 100)
                 @ ''%'',
             averageRate = toFixed1 (js_div (real (sent (stats s1))) sessionDuration) @ ''/sec''\<rparr>
      in saveSessionResults finalStats s1)"

definition start :: "env \<Rightarrow> session \<Rightarrow> session completion" where
  "start e s =
     (if isRunning s then Returned s
      else
        (let s1 = processOptimizedBatches e (s\<lparr>isRunning := True\<rparr>) in
         if 0 < length (retryQueue s1) then
           (case processRetryQueue e s1 of
              TypeError s2 \<Rightarrow> TypeError s2
            | Returned s2 \<Rightarrow> Returned (complete e s2))
         else Returned (complete e s1)))"

text \<open>The session a completion carries.\<close>

fun session_of :: "session completion \<Rightarrow> session" where
  "session_of (Returned s) = s"
| "session_of (TypeError s) = s"

section \<open>Notions used in the proofs\<close>

definition is_sleep :: "event \<Rightarrow> bool" where
  "is_sleep ev = (case ev of Sleep t x \<Rightarrow> True | _ \<Rightarrow> False)"

text \<open>The state in which \<open>processBatch\<close> finds the session when the results are in.\<close>

definition joined :: "env \<Rightarrow> nat list \<Rightarrow> nat \<Rightarrow> session \<Rightarrow> session" where
  "joined e batch batchIndex s =
     (let (controllers, s1) = launch e batchIndex 0 batch s;
          s2 = interrupt e (Join batchIndex) (s1\<lparr>currentBatch := Some controllers\<rparr>)
      in snd (settle e Primary controllers s2))"

text \<open>The results \<open>processBatch\<close> counts: one for every request fired.\<close>

definition batch_results :: "env \<Rightarrow> nat list \<Rightarrow> nat \<Rightarrow> session \<Rightarrow> (nat \<times> result) list" where
  "batch_results e batch batchIndex s =
     map (\<lambda>r. (r, fst (executeRequest_loop e (config s) Primary r 0)))
       (fst (launch e batchIndex 0 batch s))"

text \<open>
  The counters after a join: every result counted was counted as one success or one
  failure, and nothing enters the retry queue without a failure counted.
\<close>

definition counted :: "session \<Rightarrow> bool" where
  "counted s = (sent (stats s) = successful (stats s) + failed (stats s))"

definition tally :: "session \<Rightarrow> bool" where
  "tally s =
     (successful (stats s) + failed (stats s) \<le> sent (stats s)
      \<and> length (retryQueue s) \<le> failed (stats s))"

text \<open>
  The retry counters while the primary pass runs: the requests outside \<open>U\<close> (those not
  yet counted) still have counter 0, and no counter, now or at any earlier increment,
  is above \<open>maxRetries\<close>.
\<close>

definition retry_bounded :: "nat set \<Rightarrow> session \<Rightarrow> bool" where
  "retry_bounded U s =
     ((\<forall>i<length (requestQueue s). i \<notin> U \<longrightarrow> retryCount (requestQueue s ! i) = 0)
      \<and> (\<forall>i<length (requestQueue s). int (retryCount (requestQueue s ! i)) \<le> maxRetries (config s))
      \<and> (\<forall>r m. Bump r m \<in> set (history s) \<longrightarrow> int m \<le> maxRetries (config s)))"

text \<open>The session in which the loop of \<open>processRetryQueue\<close> ends.\<close>

fun loop_session :: "((nat \<times> nat) \<times> session) completion \<Rightarrow> session" where
  "loop_session (Returned (cnt, s)) = s"
| "loop_session (TypeError (cnt, s)) = s"



section \<open>Expected back-off\<close>




section \<open>Concrete sessions\<close>

text \<open>The scenario of the specification: 100 impressions, one second apart, tier \<open>balanced\<close>.\<close>

definition cfg_balanced :: session_config where
  "cfg_balanced =
     \<lparr>impressions = 100, delay = 1000, proxyQuality = ''balanced'', maxRetries = 3,
      enableJitter = False\<rparr>"

text \<open>
  A session with the smallest delay the form accepts and jitter enabled, after twelve
  batches of five requests that all succeeded.
\<close>

definition jitter_config :: session_config where
  "jitter_config =
     \<lparr>impressions = 100, delay = 200, proxyQuality = ''balanced'', maxRetries = 3,
      enableJitter = True\<rparr>"

definition after_twelve_batches :: session where
  "after_twelve_batches =
     (TrafficSession jitter_config)
       \<lparr>isRunning := True,
        stats := \<lparr>sent = 60, successful = 60, failed = 0, total = 100, batchCount = 12\<rparr>\<rparr>"

text \<open>
  An environment in which every \<open>fetch\<close> is answered with the same response, every draw
  of \<open>Math.random()\<close> is 0, and the host never calls \<open>stop()\<close>.
\<close>

definition constant_env :: "response \<Rightarrow> env" where
  "constant_env rsp =
     \<lparr>fetch = (\<lambda>p r a. rsp), mathRandom = (\<lambda>d. 0), durationMs = (\<lambda>p r. 10),
      elapsedMs = (\<lambda>p r. 1000), sessionMs = 5000, stopAt = (\<lambda>pt. False)\<rparr>"

text \<open>Two requests, one second apart (width 1), three attempts each.\<close>

definition two_requests :: session_config where
  "two_requests =
     \<lparr>impressions = 2, delay = 1000, proxyQuality = ''balanced'', maxRetries = 3,
      enableJitter = False\<rparr>"


definition staggered_pair :: session_config where
  "staggered_pair =
     \<lparr>impressions = 2, delay = 500, proxyQuality = ''balanced'', maxRetries = 3,
      enableJitter = True\<rparr>"

text \<open>A session with nothing to send.\<close>

definition no_impressions :: session_config where
  "no_impressions =
     \<lparr>impressions = 0, delay = 1000, proxyQuality = ''balanced'', maxRetries = 3,
      enableJitter = False\<rparr>"

text \<open>The host calls \<open>stop()\<close> during the await at \<open>pt\<close>, and at no other time.\<close>

definition stop_at :: "point \<Rightarrow> env \<Rightarrow> env" where
  "stop_at pt e = e\<lparr>stopAt := (\<lambda>p. p = pt)\<rparr>"

text \<open>
  A session in the middle of its primary pass, with an empty retry queue: the first
  request of \<open>two_requests\<close> is being counted.
\<close>

definition counting_first :: session where
  "counting_first = (TrafficSession two_requests)\<lparr>isRunning := True\<rparr>"

text \<open>The same session while \<open>processBatch\<close> awaits the join of its first batch.\<close>

definition awaiting_first :: session where
  "awaiting_first = counting_first\<lparr>currentBatch := Some [0]\<rparr>"

section \<open>Properties\<close>

subsection \<open>Numbers\<close>

lemma overflow_code [code]:
  "overflow x =
     (if 179769313486231580793728971405303415079934132710037826936173778980444968292764750946649017977587207096330286416692887910946555547851940402630657488671505820681908902000708383676273854845817711531764475730270069855571366959622842914819860834936475292719074168444365510704342711559699508093042880177904174497792 \<le> x then PInf
      else if x \<le> - 179769313486231580793728971405303415079934132710037826936173778980444968292764750946649017977587207096330286416692887910946555547851940402630657488671505820681908902000708383676273854845817711531764475730270069855571366959622842914819860834936475292719074168444365510704342711559699508093042880177904174497792 then NInf
      else Fin x)"
  by (simp add: overflow_def)





subsection \<open>What each step leaves unchanged\<close>

lemma record_event_fields [simp]:
  "config (record_event evs s) = config s"
  "isRunning (record_event evs s) = isRunning s"
  "currentBatch (record_event evs s) = currentBatch s"
  "retryQueue (record_event evs s) = retryQueue s"
  "requestQueue (record_event evs s) = requestQueue s"
  "concurrency (record_event evs s) = concurrency s"
  "stats (record_event evs s) = stats s"
  "performance (record_event evs s) = performance s"
  "aborted (record_event evs s) = aborted s"
  "trafficSessions (record_event evs s) = trafficSessions s"
  "history (record_event evs s) = history s @ evs"
  by (simp_all add: record_event_def)

lemma stop_fields [simp]:
  "config (stop s) = config s"
  "\<not> isRunning (stop s)"
  "currentBatch (stop s) = None"
  "retryQueue (stop s) = retryQueue s"
  "requestQueue (stop s) = requestQueue s"
  "concurrency (stop s) = concurrency s"
  "stats (stop s) = stats s"
  "performance (stop s) = performance s"
  "trafficSessions (stop s) = trafficSessions s"
  "history (stop s) = history s"
  by (simp_all add: stop_def split: option.splits)

lemma interrupt_fields [simp]:
  "config (interrupt e p s) = config s"
  "retryQueue (interrupt e p s) = retryQueue s"
  "requestQueue (interrupt e p s) = requestQueue s"
  "concurrency (interrupt e p s) = concurrency s"
  "stats (interrupt e p s) = stats s"
  "performance (interrupt e p s) = performance s"
  "trafficSessions (interrupt e p s) = trafficSessions s"
  "history (interrupt e p s) = history s"
  by (simp_all add: interrupt_def)

lemma interrupt_isRunning:
  "isRunning (interrupt e p s) = (isRunning s \<and> \<not> stopAt e p)"
  by (simp add: interrupt_def)

lemma interrupt_quiet: "\<not> stopAt e p \<Longrightarrow> interrupt e p s = s"
  by (simp add: interrupt_def)

lemma updatePerformanceMetrics_fields [simp]:
  "config (updatePerformanceMetrics d b t s) = config s"
  "isRunning (updatePerformanceMetrics d b t s) = isRunning s"
  "currentBatch (updatePerformanceMetrics d b t s) = currentBatch s"
  "retryQueue (updatePerformanceMetrics d b t s) = retryQueue s"
  "requestQueue (updatePerformanceMetrics d b t s) = requestQueue s"
  "concurrency (updatePerformanceMetrics d b t s) = concurrency s"
  "stats (updatePerformanceMetrics d b t s) = stats s"
  "aborted (updatePerformanceMetrics d b t s) = aborted s"
  "trafficSessions (updatePerformanceMetrics d b t s) = trafficSessions s"
  "history (updatePerformanceMetrics d b t s) = history s"
  by (simp_all add: updatePerformanceMetrics_def)

lemma executeRequest_result: "fst (executeRequest e p r s) = fst (executeRequest_loop e (config s) p r 0)"
  by (simp add: executeRequest_def Let_def case_prod_beta)

lemma executeRequest_fields [simp]:
  "config (snd (executeRequest e p r s)) = config s"
  "isRunning (snd (executeRequest e p r s)) = isRunning s"
  "currentBatch (snd (executeRequest e p r s)) = currentBatch s"
  "retryQueue (snd (executeRequest e p r s)) = retryQueue s"
  "requestQueue (snd (executeRequest e p r s)) = requestQueue s"
  "concurrency (snd (executeRequest e p r s)) = concurrency s"
  "stats (snd (executeRequest e p r s)) = stats s"
  "aborted (snd (executeRequest e p r s)) = aborted s"
  "trafficSessions (snd (executeRequest e p r s)) = trafficSessions s"
  "history (snd (executeRequest e p r s)) = history s @ snd (executeRequest_loop e (config s) p r 0)"
  by (simp_all add: executeRequest_def Let_def case_prod_beta)

lemma settle_results:
  "fst (settle e p rs s) = map (\<lambda>r. (r, fst (executeRequest_loop e (config s) p r 0))) rs"
proof (induction rs arbitrary: s)
  case Nil
  then show ?case by simp
next
  case (Cons r rs)
  have "fst (settle e p rs (snd (executeRequest e p r s))) =
          map (\<lambda>r. (r, fst (executeRequest_loop e (config s) p r 0))) rs"
    using Cons.IH [of "snd (executeRequest e p r s)"] by simp
  then show ?case
    by (simp add: executeRequest_result Let_def case_prod_beta)
qed

lemma settle_fields [simp]:
  "config (snd (settle e p rs s)) = config s"
  "isRunning (snd (settle e p rs s)) = isRunning s"
  "currentBatch (snd (settle e p rs s)) = currentBatch s"
  "retryQueue (snd (settle e p rs s)) = retryQueue s"
  "requestQueue (snd (settle e p rs s)) = requestQueue s"
  "concurrency (snd (settle e p rs s)) = concurrency s"
  "stats (snd (settle e p rs s)) = stats s"
  "aborted (snd (settle e p rs s)) = aborted s"
  "trafficSessions (snd (settle e p rs s)) = trafficSessions s"
proof (induction rs arbitrary: s)
  case Nil
  {
    case 1 show ?case by simp
  next
    case 2 show ?case by simp
  next
    case 3 show ?case by simp
  next
    case 4 show ?case by simp
  next
    case 5 show ?case by simp
  next
    case 6 show ?case by simp
  next
    case 7 show ?case by simp
  next
    case 8 show ?case by simp
  next
    case 9 show ?case by simp
  }
next
  case (Cons r rs)
  {
    case 1 show ?case using Cons.IH(1) [of "snd (executeRequest e p r s)"] by (simp add: Let_def case_prod_beta)
  next
    case 2 show ?case using Cons.IH(2) [of "snd (executeRequest e p r s)"] by (simp add: Let_def case_prod_beta)
  next
    case 3 show ?case using Cons.IH(3) [of "snd (executeRequest e p r s)"] by (simp add: Let_def case_prod_beta)
  next
    case 4 show ?case using Cons.IH(4) [of "snd (executeRequest e p r s)"] by (simp add: Let_def case_prod_beta)
  next
    case 5 show ?case using Cons.IH(5) [of "snd (executeRequest e p r s)"] by (simp add: Let_def case_prod_beta)
  next
    case 6 show ?case using Cons.IH(6) [of "snd (executeRequest e p r s)"] by (simp add: Let_def case_prod_beta)
  next
    case 7 show ?case using Cons.IH(7) [of "snd (executeRequest e p r s)"] by (simp add: Let_def case_prod_beta)
  next
    case 8 show ?case using Cons.IH(8) [of "snd (executeRequest e p r s)"] by (simp add: Let_def case_prod_beta)
  next
    case 9 show ?case using Cons.IH(9) [of "snd (executeRequest e p r s)"] by (simp add: Let_def case_prod_beta)
  }
qed

lemma settle_history:
  "history (snd (settle e p rs s)) =
     history s @ concat (map (\<lambda>r. snd (executeRequest_loop e (config s) p r 0)) rs)"
proof (induction rs arbitrary: s)
  case Nil
  then show ?case by simp
next
  case (Cons r rs)
  show ?case using Cons.IH [of "snd (executeRequest e p r s)"] by (simp add: Let_def case_prod_beta)
qed
subsection \<open>Firing a batch\<close>

lemma launch_fields [simp]:
  "config (snd (launch e b j batch s)) = config s"
  "retryQueue (snd (launch e b j batch s)) = retryQueue s"
  "requestQueue (snd (launch e b j batch s)) = requestQueue s"
  "concurrency (snd (launch e b j batch s)) = concurrency s"
  "stats (snd (launch e b j batch s)) = stats s"
  "performance (snd (launch e b j batch s)) = performance s"
  "trafficSessions (snd (launch e b j batch s)) = trafficSessions s"
  by (induction e b j batch s rule: launch.induct; simp add: Let_def case_prod_beta)+

lemma launch_prefix: "\<exists>k. fst (launch e b j batch s) = take k batch"
proof (induction e b j batch s rule: launch.induct)
  case (1 e b j s)
  then show ?case by simp
next
  case (2 e b j r rs s)
  show ?case
  proof (cases "isRunning s")
    case False
    then have "fst (launch e b j (r # rs) s) = take 0 (r # rs)" by simp
    then show ?thesis by blast
  next
    case True
    let ?s1 = "(if enableJitter (config s)
                then interrupt e (Stagger b j)
                       (record_event
                          [Sleep StaggerWait
                             (js_times
                                (js_div (real_of_int (delay (config s)))
                                   (real_of_int (concurrency s)))
                                (jitterFactor (mathRandom e (StaggerDraw b j))))] s)
                else s)"
    from 2 [OF _ refl] True obtain k where k: "fst (launch e b (Suc j) rs ?s1) = take k rs"
      by auto
    have "fst (launch e b j (r # rs) s) = take (Suc k) (r # rs)"
      using True k by (simp add: Let_def case_prod_beta)
    then show ?thesis by blast
  qed
qed

lemma launch_subset: "set (fst (launch e b j batch s)) \<subseteq> set batch"
proof -
  obtain k where "fst (launch e b j batch s) = take k batch" using launch_prefix by blast
  then show ?thesis by (simp add: set_take_subset)
qed

lemma launch_stays_stopped: "\<not> isRunning s \<Longrightarrow> \<not> isRunning (snd (launch e b j batch s))"
  by (induction e b j batch s rule: launch.induct) (simp_all add: Let_def case_prod_beta)

lemma launch_running_all:
  "isRunning (snd (launch e b j batch s)) \<Longrightarrow> fst (launch e b j batch s) = batch"
proof (induction e b j batch s rule: launch.induct)
  case (1 e b j s)
  then show ?case by simp
next
  case (2 e b j r rs s)
  have run: "isRunning s"
    using "2.prems" launch_stays_stopped [of s e b j "r # rs"] by blast
  then show ?case using 2 by (simp add: Let_def case_prod_beta)
qed

lemma launch_quiet:
  assumes "\<And>j. \<not> stopAt e (Stagger b j)" and "isRunning s"
  shows "fst (launch e b j batch s) = batch \<and> isRunning (snd (launch e b j batch s))
         \<and> currentBatch (snd (launch e b j batch s)) = currentBatch s
         \<and> aborted (snd (launch e b j batch s)) = aborted s"
  using assms(2)
proof (induction batch arbitrary: j s)
  case Nil
  then show ?case by simp
next
  case (Cons r rs)
  let ?s1 = "(if enableJitter (config s)
                then interrupt e (Stagger b j)
                       (record_event
                          [Sleep StaggerWait
                             (js_times
                                (js_div (real_of_int (delay (config s)))
                                   (real_of_int (concurrency s)))
                                (jitterFactor (mathRandom e (StaggerDraw b j))))] s)
                else s)"
  have r1: "isRunning ?s1" "currentBatch ?s1 = currentBatch s" "aborted ?s1 = aborted s"
    using Cons.prems assms(1) by (simp_all add: interrupt_quiet)
  from Cons.IH [OF r1(1), of "Suc j"] r1 Cons.prems show ?case
    by (simp add: Let_def case_prod_beta)
qed

lemma launch_no_controllers:
  "currentBatch s = None \<Longrightarrow>
     currentBatch (snd (launch e b j batch s)) = None \<and> aborted (snd (launch e b j batch s)) = aborted s"
proof (induction e b j batch s rule: launch.induct)
  case (1 e b j s)
  then show ?case by simp
next
  case (2 e b j r rs s)
  let ?s1 = "(if enableJitter (config s)
                then interrupt e (Stagger b j)
                       (record_event
                          [Sleep StaggerWait
                             (js_times
                                (js_div (real_of_int (delay (config s)))
                                   (real_of_int (concurrency s)))
                                (jitterFactor (mathRandom e (StaggerDraw b j))))] s)
                else s)"
  have c1: "currentBatch ?s1 = None" "aborted ?s1 = aborted s"
    using "2.prems" by (simp_all add: interrupt_def stop_def)
  show ?case
  proof (cases "isRunning s")
    case False
    then show ?thesis using "2.prems" by simp
  next
    case True
    from "2.IH" [OF _ refl c1(1)] True c1 show ?thesis
      by (simp add: Let_def case_prod_beta)
  qed
qed

lemma launch_history:
  "\<exists>evs. history (snd (launch e b j batch s)) = history s @ evs \<and> (\<forall>ev\<in>set evs. is_sleep ev)"
proof (induction e b j batch s rule: launch.induct)
  case (1 e b j s)
  then show ?case by simp
next
  case (2 e b j r rs s)
  show ?case
  proof (cases "isRunning s")
    case False
    then show ?thesis by simp
  next
    case True
    let ?s1 = "(if enableJitter (config s)
                then interrupt e (Stagger b j)
                       (record_event
                          [Sleep StaggerWait
                             (js_times
                                (js_div (real_of_int (delay (config s)))
                                   (real_of_int (concurrency s)))
                                (jitterFactor (mathRandom e (StaggerDraw b j))))] s)
                else s)"
    obtain evs0 where e0: "history ?s1 = history s @ evs0" "\<forall>ev\<in>set evs0. is_sleep ev"
      by (cases "enableJitter (config s)") (simp_all add: is_sleep_def)
    from "2.IH" [OF _ refl] True obtain evs where
      e1: "history (snd (launch e b (Suc j) rs ?s1)) = history ?s1 @ evs" "\<forall>ev\<in>set evs. is_sleep ev"
      by auto
    have "history (snd (launch e b j (r # rs) s)) = history s @ (evs0 @ evs)"
      using True e0 e1 by (simp add: Let_def case_prod_beta)
    moreover have "\<forall>ev\<in>set (evs0 @ evs). is_sleep ev" using e0 e1 by auto
    ultimately show ?thesis by blast
  qed
qed
subsection \<open>Counting the results of a batch\<close>

lemma processResult_fields [simp]:
  "config (processResult r res s) = config s"
  "isRunning (processResult r res s) = isRunning s"
  "currentBatch (processResult r res s) = currentBatch s"
  "concurrency (processResult r res s) = concurrency s"
  "performance (processResult r res s) = performance s"
  "aborted (processResult r res s) = aborted s"
  "trafficSessions (processResult r res s) = trafficSessions s"
  "length (requestQueue (processResult r res s)) = length (requestQueue s)"
  "total (stats (processResult r res s)) = total (stats s)"
  "batchCount (stats (processResult r res s)) = batchCount (stats s)"
  "sent (stats (processResult r res s)) = sent (stats s) + 1"
  by (simp_all add: processResult_def Let_def split: result.splits)

lemma processBatchResults_fields [simp]:
  "config (processBatchResults results s) = config s"
  "isRunning (processBatchResults results s) = isRunning s"
  "currentBatch (processBatchResults results s) = currentBatch s"
  "concurrency (processBatchResults results s) = concurrency s"
  "performance (processBatchResults results s) = performance s"
  "aborted (processBatchResults results s) = aborted s"
  "trafficSessions (processBatchResults results s) = trafficSessions s"
  "length (requestQueue (processBatchResults results s)) = length (requestQueue s)"
  "total (stats (processBatchResults results s)) = total (stats s)"
  "batchCount (stats (processBatchResults results s)) = batchCount (stats s)"
  by (induction results s rule: processBatchResults.induct; simp)+

lemma processBatchResults_rule:
  assumes "P s"
    and "\<And>r res t. (r, res) \<in> set results \<Longrightarrow> P t \<Longrightarrow> P (processResult r res t)"
  shows "P (processBatchResults results s)"
  using assms
proof (induction results arbitrary: s)
  case Nil
  then show ?case by simp
next
  case (Cons x results)
  obtain r res where x: "x = (r, res)" by (cases x)
  have step: "P (processResult r res s)" using Cons.prems x by simp
  show ?case
  proof (cases "res = Undefined")
    case True
    then show ?thesis using step x by simp
  next
    case False
    have "P (processBatchResults results (processResult r res s))"
      using Cons.IH [OF step] Cons.prems(2) by simp
    then show ?thesis using False x by simp
  qed
qed

subsection \<open>A batch, taken apart\<close>

lemma processBatch_unfold:
  "processBatch e batch b s =
     (processBatchResults (batch_results e batch b s) (joined e batch b s))
       \<lparr>currentBatch := None,
        stats := (stats (processBatchResults (batch_results e batch b s) (joined e batch b s)))
                   \<lparr>batchCount :=
                      batchCount (stats (processBatchResults (batch_results e batch b s)
                                           (joined e batch b s))) + 1\<rparr>\<rparr>"
  by (simp add: processBatch_def joined_def batch_results_def Let_def case_prod_beta settle_results)

lemma joined_fields [simp]:
  "config (joined e batch b s) = config s"
  "retryQueue (joined e batch b s) = retryQueue s"
  "requestQueue (joined e batch b s) = requestQueue s"
  "concurrency (joined e batch b s) = concurrency s"
  "stats (joined e batch b s) = stats s"
  "trafficSessions (joined e batch b s) = trafficSessions s"
  by (simp_all add: joined_def Let_def case_prod_beta)

lemma joined_stays_stopped: "\<not> isRunning s \<Longrightarrow> \<not> isRunning (joined e batch b s)"
  by (simp add: joined_def Let_def case_prod_beta interrupt_isRunning launch_stays_stopped)

lemma batch_results_refs: "set (map fst (batch_results e batch b s)) \<subseteq> set batch"
  using launch_subset [of e b 0 batch s] by (simp add: batch_results_def comp_def)

lemma processBatch_fields [simp]:
  "config (processBatch e batch b s) = config s"
  "concurrency (processBatch e batch b s) = concurrency s"
  "trafficSessions (processBatch e batch b s) = trafficSessions s"
  "length (requestQueue (processBatch e batch b s)) = length (requestQueue s)"
  "total (stats (processBatch e batch b s)) = total (stats s)"
  "currentBatch (processBatch e batch b s) = None"
  by (simp_all add: processBatch_unfold)

lemma processBatch_stays_stopped: "\<not> isRunning s \<Longrightarrow> \<not> isRunning (processBatch e batch b s)"
  by (simp add: processBatch_unfold joined_stays_stopped)

lemma adaptiveDelay_fields [simp]:
  "config (adaptiveDelay e b s) = config s"
  "retryQueue (adaptiveDelay e b s) = retryQueue s"
  "requestQueue (adaptiveDelay e b s) = requestQueue s"
  "concurrency (adaptiveDelay e b s) = concurrency s"
  "stats (adaptiveDelay e b s) = stats s"
  "performance (adaptiveDelay e b s) = performance s"
  "trafficSessions (adaptiveDelay e b s) = trafficSessions s"
  by (simp_all add: adaptiveDelay_def)

lemma adaptiveDelay_stays_stopped: "\<not> isRunning s \<Longrightarrow> \<not> isRunning (adaptiveDelay e b s)"
  by (simp add: adaptiveDelay_def interrupt_isRunning)

subsection \<open>The primary loop\<close>

lemma processOptimizedBatches_loop_rule:
  assumes "P b s"
    and "\<And>b s. b < tb \<Longrightarrow> isRunning s \<Longrightarrow> P b s \<Longrightarrow>
           P (Suc b) (processOptimizedBatches_body e tb b s)"
  shows "\<exists>b'. b \<le> b' \<and> P b' (processOptimizedBatches_loop e tb b s)
           \<and> (b' < tb \<longrightarrow> \<not> isRunning (processOptimizedBatches_loop e tb b s))"
  using assms
proof (induction e tb b s rule: processOptimizedBatches_loop.induct)
  case (1 e tb b s)
  show ?case
  proof (cases "b < tb \<and> isRunning s")
    case False
    then have "processOptimizedBatches_loop e tb b s = s"
      by (subst processOptimizedBatches_loop.simps) auto
    then show ?thesis using "1.prems"(1) False by auto
  next
    case True
    let ?s' = "processOptimizedBatches_body e tb b s"
    have eq: "processOptimizedBatches_loop e tb b s = processOptimizedBatches_loop e tb (Suc b) ?s'"
      using True by (subst processOptimizedBatches_loop.simps) simp
    have "P (Suc b) ?s'" using "1.prems" True by blast
    from "1.IH" [OF _ _ this "1.prems"(2)] True obtain b' where
      "Suc b \<le> b'" "P b' (processOptimizedBatches_loop e tb (Suc b) ?s')"
      "b' < tb \<longrightarrow> \<not> isRunning (processOptimizedBatches_loop e tb (Suc b) ?s')"
      by auto
    then show ?thesis unfolding eq by (intro exI [of _ b']) auto
  qed
qed

lemma processOptimizedBatches_loop_invariant:
  assumes "P s"
    and "\<And>b s. b < tb \<Longrightarrow> isRunning s \<Longrightarrow> P s \<Longrightarrow> P (processOptimizedBatches_body e tb b s)"
  shows "P (processOptimizedBatches_loop e tb b s)"
  using processOptimizedBatches_loop_rule [of "\<lambda>b. P" b s tb e] assms by blast

lemma processOptimizedBatches_body_fields [simp]:
  "config (processOptimizedBatches_body e tb b s) = config s"
  "concurrency (processOptimizedBatches_body e tb b s) = concurrency s"
  "trafficSessions (processOptimizedBatches_body e tb b s) = trafficSessions s"
  "length (requestQueue (processOptimizedBatches_body e tb b s)) = length (requestQueue s)"
  "total (stats (processOptimizedBatches_body e tb b s)) = total (stats s)"
  by (simp_all add: processOptimizedBatches_body_def Let_def)

lemma processOptimizedBatches_loop_fields [simp]:
  "config (processOptimizedBatches_loop e tb b s) = config s"
  "concurrency (processOptimizedBatches_loop e tb b s) = concurrency s"
  "trafficSessions (processOptimizedBatches_loop e tb b s) = trafficSessions s"
  "length (requestQueue (processOptimizedBatches_loop e tb b s)) = length (requestQueue s)"
  "total (stats (processOptimizedBatches_loop e tb b s)) = total (stats s)"
  by (rule processOptimizedBatches_loop_invariant; simp)+
subsection \<open>Concurrency planner\<close>

lemma baseConcurrency_range: "1 \<le> baseConcurrency d \<and> baseConcurrency d \<le> 10"
  by (simp add: baseConcurrency_def)

lemma concurrency_adjustConcurrency:
  "concurrency (adjustConcurrency s) =
     min (if proxyQuality (config s) = ''premium'' then 8
          else if proxyQuality (config s) = ''balanced'' then 12
          else if proxyQuality (config s) = ''aggressive'' then 15 else 5)
       (baseConcurrency (delay (config s)))"
  by (simp add: adjustConcurrency_def Let_def)

lemma concurrency_adjustConcurrency_range:
  "1 \<le> concurrency (adjustConcurrency s) \<and> concurrency (adjustConcurrency s) \<le> 10"
  using baseConcurrency_range [of "delay (config s)"]
  by (auto simp add: concurrency_adjustConcurrency)

text \<open>
  C2. For a positive delay the planner sets the width to the tier's cap (8 for
  \<open>premium\<close>, 12 for \<open>balanced\<close>, 15 for \<open>aggressive\<close>, 5 for anything else) or to
  \<open>floor(1000 / delay)\<close> clamped to 1..10, whichever is smaller; the width is at least 1;
  and a delay of 1000 with tier \<open>balanced\<close> gives width 1.
\<close>

theorem adjustConcurrency_planner:
  assumes "0 < delay (config s)"
  shows "concurrency (adjustConcurrency s) =
           min (if proxyQuality (config s) = ''premium'' then 8
                else if proxyQuality (config s) = ''balanced'' then 12
                else if proxyQuality (config s) = ''aggressive'' then 15 else 5)
             (max 1 (min 10 \<lfloor>1000 / real_of_int (delay (config s))\<rfloor>))
         \<and> 1 \<le> concurrency (adjustConcurrency s)
         \<and> (delay (config s) = 1000 \<and> proxyQuality (config s) = ''balanced''
              \<longrightarrow> concurrency (adjustConcurrency s) = 1)"
proof -
  have base: "baseConcurrency (delay (config s)) =
                max 1 (min 10 \<lfloor>1000 / real_of_int (delay (config s))\<rfloor>)"
    using assms by (simp add: baseConcurrency_def)
  have w: "concurrency (adjustConcurrency s) =
           min (if proxyQuality (config s) = ''premium'' then 8
                else if proxyQuality (config s) = ''balanced'' then 12
                else if proxyQuality (config s) = ''aggressive'' then 15 else 5)
             (max 1 (min 10 \<lfloor>1000 / real_of_int (delay (config s))\<rfloor>))"
    by (simp only: concurrency_adjustConcurrency base)
  have ge: "1 \<le> concurrency (adjustConcurrency s)"
    using concurrency_adjustConcurrency_range by blast
  have sc: "delay (config s) = 1000 \<and> proxyQuality (config s) = ''balanced''
              \<longrightarrow> concurrency (adjustConcurrency s) = 1"
    by (simp add: concurrency_adjustConcurrency baseConcurrency_def)
  from w ge sc show ?thesis by blast
qed

theorem adjustConcurrency_planner_witness:
  "0 < delay (config (TrafficSession cfg_balanced))
   \<and> concurrency (adjustConcurrency (TrafficSession cfg_balanced)) = 1
   \<and> concurrency (TrafficSession cfg_balanced) = 1"
proof -
  have d: "delay (config (TrafficSession cfg_balanced)) = 1000"
    by (simp add: TrafficSession_def adjustConcurrency_def generateRequestQueue_def
        cfg_balanced_def Let_def)
  have q: "proxyQuality (config (TrafficSession cfg_balanced)) = ''balanced''"
    by (simp add: TrafficSession_def adjustConcurrency_def generateRequestQueue_def
        cfg_balanced_def Let_def)
  have h: "0 < delay (config (TrafficSession cfg_balanced))" using d by simp
  have c: "concurrency (TrafficSession cfg_balanced) = 1"
    by (simp add: TrafficSession_def adjustConcurrency_def generateRequestQueue_def
        cfg_balanced_def Let_def baseConcurrency_def)
  from adjustConcurrency_planner [OF h] d q h c show ?thesis by simp
qed

subsection \<open>Adaptive delay\<close>

lemma jitterFactor_range:
  "0 \<le> rnd \<Longrightarrow> rnd < 1 \<Longrightarrow> 0.8 \<le> jitterFactor rnd \<and> jitterFactor rnd < 1.2"
  by (simp add: jitterFactor_def)

lemma adaptiveDelay_ms_finite:
  assumes "total (stats s) \<noteq> 0"
  shows "adaptiveDelay_ms s b rnd =
           Fin ((if 10 < b
                 then max 200 (real_of_int (delay (config s)) *
                        (1 - real (sent (stats s)) / real_of_int (total (stats s)) * 0.3))
                 else real_of_int (delay (config s)))
                * (if enableJitter (config s) then jitterFactor rnd else 1))"
  using assms by (simp add: adaptiveDelay_ms_def js_div_def Let_def mult.commute)

text \<open>
  C7, as the code has it. With a non-zero total and a draw in \<open>[0, 1)\<close>, the wait
  between batches is finite and equals the configured delay for a batch index of at most
  10, and \<open>max(200, delay * (1 - p * 0.3))\<close> with \<open>p = sent / total\<close> for a larger index,
  multiplied by a factor in \<open>[0.8, 1.2)\<close> when jitter is enabled. For an index above 10
  the wait is at least 200 ms without jitter and at least 160 ms with it: the factor is
  applied after the floor. \<open>adaptiveDelay\<close> awaits exactly this wait.
\<close>

theorem adaptiveDelay_wait:
  assumes "total (stats s) \<noteq> 0" and "0 \<le> rnd" and "rnd < 1"
  shows "(\<exists>v. adaptiveDelay_ms s b rnd = Fin v
            \<and> v = (if 10 < b
                   then max 200 (real_of_int (delay (config s)) *
                          (1 - real (sent (stats s)) / real_of_int (total (stats s)) * 0.3))
                   else real_of_int (delay (config s)))
                  * (if enableJitter (config s) then jitterFactor rnd else 1)
            \<and> (10 < b \<and> \<not> enableJitter (config s) \<longrightarrow> 200 \<le> v)
            \<and> (10 < b \<longrightarrow> 160 \<le> v))
         \<and> 0.8 \<le> jitterFactor rnd \<and> jitterFactor rnd < 1.2
         \<and> history (adaptiveDelay e b s) =
             history s @ [Sleep BatchGap (adaptiveDelay_ms s b (mathRandom e (GapDraw b)))]"
proof -
  let ?base = "(if 10 < b
                   then max 200 (real_of_int (delay (config s)) *
                          (1 - real (sent (stats s)) / real_of_int (total (stats s)) * 0.3))
                   else real_of_int (delay (config s)))"
  let ?v = "?base * (if enableJitter (config s) then jitterFactor rnd else 1)"
  have j: "0.8 \<le> jitterFactor rnd \<and> jitterFactor rnd < 1.2"
    using assms jitterFactor_range by blast
  have eq: "adaptiveDelay_ms s b rnd = Fin ?v"
    using assms(1) by (rule adaptiveDelay_ms_finite)
  have f1: "10 < b \<and> \<not> enableJitter (config s) \<longrightarrow> 200 \<le> ?v" by simp
  have f2: "10 < b \<longrightarrow> 160 \<le> ?v"
  proof
    assume b: "10 < b"
    then have "200 \<le> ?base" by simp
    moreover have "0.8 \<le> (if enableJitter (config s) then jitterFactor rnd else 1)"
      using j by simp
    ultimately have "200 * 0.8 \<le> ?v"
      by (intro mult_mono) simp_all
    then show "160 \<le> ?v" by simp
  qed
  have h: "history (adaptiveDelay e b s) =
             history s @ [Sleep BatchGap (adaptiveDelay_ms s b (mathRandom e (GapDraw b)))]"
    by (simp add: adaptiveDelay_def interrupt_def stop_def record_event_def split: option.splits)
  from eq f1 f2 j h show ?thesis by blast
qed

theorem adaptiveDelay_wait_witness:
  "total (stats after_twelve_batches) \<noteq> 0 \<and> (0::real) \<le> 1 / 2 \<and> (1 / 2 :: real) < 1
   \<and> adaptiveDelay_ms after_twelve_batches 11 (1 / 2) = Fin 200"
proof -
  have t: "total (stats after_twelve_batches) \<noteq> 0"
    by (simp add: after_twelve_batches_def)
  have c: "delay (config after_twelve_batches) = 200" "enableJitter (config after_twelve_batches)"
      "sent (stats after_twelve_batches) = 60" "total (stats after_twelve_batches) = 100"
    by (simp_all add: after_twelve_batches_def TrafficSession_def jitter_config_def
      adjustConcurrency_def generateRequestQueue_def Let_def)
  from adaptiveDelay_wait [OF t, of "1 / 2" 11] c t show ?thesis
    by (simp add: jitterFactor_def)
qed

text \<open>
  C7 as stated fails: with a delay of 200 ms, jitter enabled and a draw of 0, the wait
  after batch index 11 is 160 ms, below the floor of 200 ms.
\<close>

theorem adaptiveDelay_below_floor:
  "adaptiveDelay_ms after_twelve_batches 11 0 = Fin 160 \<and> (160::real) < 200"
  by (simp add: adaptiveDelay_ms_def after_twelve_batches_def TrafficSession_def jitter_config_def
      adjustConcurrency_def generateRequestQueue_def Let_def js_div_def jitterFactor_def)
subsection \<open>What the executor returns\<close>

lemma executeRequest_loop_defined:
  "int attempt < maxRetries c \<Longrightarrow> fst (executeRequest_loop e c p r attempt) \<noteq> Undefined"
proof (induction e c p r attempt rule: executeRequest_loop.induct)
  case (1 e c p r attempt)
  show ?case
  proof (cases "classify (fetch e p r attempt)")
    case (Delivered n)
    then show ?thesis using "1.prems" by (subst executeRequest_loop.simps) simp
  next
    case Thrown
    show ?thesis
    proof (cases "int (Suc attempt) = maxRetries c")
      case True
      then show ?thesis using "1.prems" Thrown by (subst executeRequest_loop.simps) simp
    next
      case False
      then have lt: "int (Suc attempt) < maxRetries c" using "1.prems" by simp
      have "fst (executeRequest_loop e c p r (Suc attempt)) \<noteq> Undefined"
        using "1.IH" [OF "1.prems" Thrown False lt] .
      then show ?thesis using "1.prems" Thrown False
        by (subst executeRequest_loop.simps) (simp add: case_prod_beta)
    qed
  qed
qed

lemma executeRequest_loop_undefined:
  "\<not> int attempt < maxRetries c \<Longrightarrow> executeRequest_loop e c p r attempt = (Undefined, [])"
  by (subst executeRequest_loop.simps) simp

lemma executeRequest_loop_Failure:
  "fst (executeRequest_loop e c p r attempt) = Failure \<Longrightarrow> 1 \<le> maxRetries c"
  using executeRequest_loop_undefined [of attempt c e p r] by (cases "int attempt < maxRetries c") auto

lemma batch_results_defined:
  assumes "1 \<le> maxRetries (config s)" and "(r, res) \<in> set (batch_results e batch b s)"
  shows "res \<noteq> Undefined"
  using assms executeRequest_loop_defined [of 0 "config s" e Primary]
  by (auto simp add: batch_results_def)

subsection \<open>The counters\<close>

lemma processResult_tally: "tally s \<Longrightarrow> tally (processResult r res s)"
  by (cases res) (auto simp add: tally_def processResult_def Let_def)

lemma processResult_counted: "res \<noteq> Undefined \<Longrightarrow> counted s \<Longrightarrow> counted (processResult r res s)"
  by (cases res) (auto simp add: counted_def processResult_def Let_def)

lemma processBatch_tally: "tally s \<Longrightarrow> tally (processBatch e batch b s)"
proof -
  assume t: "tally s"
  have "tally (joined e batch b s)" using t by (simp add: tally_def)
  then have "tally (processBatchResults (batch_results e batch b s) (joined e batch b s))"
    by (rule processBatchResults_rule) (rule processResult_tally)
  then show ?thesis by (simp add: processBatch_unfold tally_def)
qed

lemma processBatch_counted:
  assumes "1 \<le> maxRetries (config s)" and "counted s"
  shows "counted (processBatch e batch b s)"
proof -
  have "counted (joined e batch b s)" using assms(2) by (simp add: counted_def)
  then have "counted (processBatchResults (batch_results e batch b s) (joined e batch b s))"
  proof (rule processBatchResults_rule)
    fix r res and t :: session
    assume "(r, res) \<in> set (batch_results e batch b s)" and "counted t"
    then show "counted (processResult r res t)"
      using batch_results_defined [OF assms(1)] processResult_counted by blast
  qed
  then show ?thesis by (simp add: processBatch_unfold counted_def)
qed

lemma processBatch_sent_mono: "sent (stats s) \<le> sent (stats (processBatch e batch b s))"
proof -
  have "sent (stats s) \<le> sent (stats (joined e batch b s))" by simp
  then have "sent (stats s) \<le>
      sent (stats (processBatchResults (batch_results e batch b s) (joined e batch b s)))"
    by (rule processBatchResults_rule) simp
  then show ?thesis by (simp add: processBatch_unfold)
qed

lemma processOptimizedBatches_body_tally: "tally s \<Longrightarrow> tally (processOptimizedBatches_body e tb b s)"
  using processBatch_tally [of s e _ b]
  by (simp add: processOptimizedBatches_body_def Let_def tally_def)

lemma processOptimizedBatches_body_counted:
  "1 \<le> maxRetries (config s) \<Longrightarrow> counted s \<Longrightarrow> counted (processOptimizedBatches_body e tb b s)"
  using processBatch_counted [of s e _ b]
  by (simp add: processOptimizedBatches_body_def Let_def counted_def)

lemma processOptimizedBatches_body_sent_mono:
  "sent (stats s) \<le> sent (stats (processOptimizedBatches_body e tb b s))"
  using processBatch_sent_mono [of s e _ b]
  by (simp add: processOptimizedBatches_body_def Let_def)

lemma processOptimizedBatches_loop_tally:
  "tally s \<Longrightarrow> tally (processOptimizedBatches_loop e tb b s)"
  by (rule processOptimizedBatches_loop_invariant) (simp_all add: processOptimizedBatches_body_tally)

lemma processOptimizedBatches_loop_counted:
  assumes "1 \<le> maxRetries (config s)" and "counted s"
  shows "counted (processOptimizedBatches_loop e tb b s)"
proof -
  have "1 \<le> maxRetries (config (processOptimizedBatches_loop e tb b s))
        \<and> counted (processOptimizedBatches_loop e tb b s)"
    by (rule processOptimizedBatches_loop_invariant)
       (simp_all add: assms processOptimizedBatches_body_counted)
  then show ?thesis by simp
qed

lemma processOptimizedBatches_loop_sent_mono:
  "k \<le> sent (stats s) \<Longrightarrow> k \<le> sent (stats (processOptimizedBatches_loop e tb b s))"
proof (rule processOptimizedBatches_loop_invariant)
  fix b and t :: session
  assume "k \<le> sent (stats t)"
  then show "k \<le> sent (stats (processOptimizedBatches_body e tb b t))"
    using processOptimizedBatches_body_sent_mono [of t e tb b] by linarith
qed

lemma TrafficSession_fields [simp]:
  "config (TrafficSession c) = c"
  "\<not> isRunning (TrafficSession c)"
  "currentBatch (TrafficSession c) = None"
  "retryQueue (TrafficSession c) = []"
  "stats (TrafficSession c) =
     \<lparr>sent = 0, successful = 0, failed = 0, total = impressions c, batchCount = 0\<rparr>"
  "performance (TrafficSession c) =
     \<lparr>averageResponseTime = 0, requestsPerSecond = 0, successRate = 100\<rparr>"
  "aborted (TrafficSession c) = []"
  "history (TrafficSession c) = []"
  "trafficSessions (TrafficSession c) = []"
  "requestQueue (TrafficSession c) =
     map (\<lambda>i. \<lparr>req_id = i + 1, retryCount = 0\<rparr>) [0..<nat (impressions c)]"
  by (simp_all add: TrafficSession_def adjustConcurrency_def generateRequestQueue_def Let_def)

lemma TrafficSession_concurrency:
  "1 \<le> concurrency (TrafficSession c) \<and> concurrency (TrafficSession c) \<le> 10"
  unfolding TrafficSession_def by (rule concurrency_adjustConcurrency_range)
subsection \<open>The retry pass\<close>

lemma processRetryQueue_loop_invariant:
  assumes "P s"
    and "\<And>t evs. P t \<Longrightarrow> (\<And>ev. ev \<in> set evs \<Longrightarrow> is_sleep ev) \<Longrightarrow> P (record_event evs t)"
    and "\<And>t p. P t \<Longrightarrow> P (interrupt e p t)"
    and "\<And>t rs. P t \<Longrightarrow> P (snd (settle e Retry rs t))"
  shows "case processRetryQueue_loop e rc rb i cnt s of
           Returned (c, s') \<Rightarrow> P s' | TypeError (c, s') \<Rightarrow> P s'"
  using assms
proof (induction e rc rb i cnt s rule: processRetryQueue_loop.induct)
  case (1 e rc rb i cnt s)
  show ?case
  proof (cases "i < rb \<and> isRunning s")
    case False
    then have "processRetryQueue_loop e rc rb i cnt s = Returned (cnt, s)"
      by (subst processRetryQueue_loop.simps) auto
    then show ?thesis using "1.prems"(1) by simp
  next
    case True
    define startIdx where "startIdx = i * rc"
    define endIdx where "endIdx = min (startIdx + rc) (length (retryQueue s))"
    define retryBatch where "retryBatch = slice (retryQueue s) startIdx endIdx"
    define s1 where "s1 = record_event
                       (map (\<lambda>index. Sleep RetryStagger (Fin (real index * 100)))
                          [0..<length retryBatch]) s"
    define s2 where "s2 = interrupt e (RetryJoin i) s1"
    define results where "results = fst (settle e Retry retryBatch s2)"
    define s3 where "s3 = snd (settle e Retry retryBatch s2)"
    have P1: "P s1"
      unfolding s1_def using "1.prems"(1) by (rule "1.prems"(2)) (auto simp add: is_sleep_def)
    have P3: "P s3"
      unfolding s3_def s2_def using P1 "1.prems"(3,4) by blast
    show ?thesis
    proof (cases "countRetryResults results cnt")
      case None
      then have "processRetryQueue_loop e rc rb i cnt s = TypeError (cnt, s3)"
        using True
        by (subst processRetryQueue_loop.simps)
           (simp add: Let_def case_prod_beta startIdx_def endIdx_def retryBatch_def s1_def
              s2_def results_def s3_def)
      then show ?thesis using P3 by simp
    next
      case (Some cnt')
      define s4 where "s4 = (if int i < int rb - 1
                              then interrupt e (RetryGapPoint i)
                                     (record_event [Sleep RetryGap (Fin 500)] s3)
                              else s3)"
      have "P (record_event [Sleep RetryGap (Fin 500)] s3)"
        using P3 by (rule "1.prems"(2)) (simp add: is_sleep_def)
      then have P4: "P s4" unfolding s4_def using P3 "1.prems"(3) by auto
      have eq: "processRetryQueue_loop e rc rb i cnt s =
                  processRetryQueue_loop e rc rb (Suc i) cnt' s4"
        using True Some
        by (subst processRetryQueue_loop.simps)
           (simp add: Let_def case_prod_beta startIdx_def endIdx_def retryBatch_def s1_def
              s2_def results_def s3_def s4_def)
      have "case processRetryQueue_loop e rc rb (Suc i) cnt' s4 of
              Returned (c, s') \<Rightarrow> P s' | TypeError (c, s') \<Rightarrow> P s'"
        using True Some
        by (intro "1.IH" [OF _ _ startIdx_def endIdx_def retryBatch_def s1_def s2_def _ _ _ s4_def]
              P4 "1.prems"(2,3,4))
           (simp_all add: results_def s3_def prod_eq_iff)
      then show ?thesis unfolding eq .
    qed
  qed
qed

lemma processRetryQueue_loop_stopped:
  "\<not> isRunning s \<Longrightarrow> processRetryQueue_loop e rc rb i cnt s = Returned (cnt, s)"
  by (subst processRetryQueue_loop.simps) simp

lemma processRetryQueue_invariant:
  assumes "P s"
    and "\<And>t evs. P t \<Longrightarrow> (\<And>ev. ev \<in> set evs \<Longrightarrow> is_sleep ev) \<Longrightarrow> P (record_event evs t)"
    and "\<And>t n. P t \<Longrightarrow> P (record_event [RetryPass n] t)"
    and "\<And>t p. P t \<Longrightarrow> P (interrupt e p t)"
    and "\<And>t rs. P t \<Longrightarrow> P (snd (settle e Retry rs t))"
    and "\<And>t a b. P t \<Longrightarrow>
           P (t\<lparr>stats := (stats t)\<lparr>successful := successful (stats t) + a,
                                     failed := failed (stats t) + b\<rparr>,
               retryQueue := []\<rparr>)"
  shows "P (session_of (processRetryQueue e s))"
proof (cases "length (retryQueue s) = 0")
  case True
  then show ?thesis using assms(1) by (simp add: processRetryQueue_def)
next
  case False
  define s0 where "s0 = record_event [RetryPass (length (retryQueue s))] s"
  define rc where "rc = nat (max 1 (concurrency s div 2))"
  define rb where "rb = ceil_div (length (retryQueue s0)) (max 1 (concurrency s div 2))"
  have P0: "P s0" unfolding s0_def using assms(1,3) by blast
  have inv: "case processRetryQueue_loop e rc rb 0 (0, 0) s0 of
           Returned (c, s') \<Rightarrow> P s' | TypeError (c, s') \<Rightarrow> P s'"
    using P0 assms(2,4,5) by (rule processRetryQueue_loop_invariant)
  have eq: "processRetryQueue e s =
          (case processRetryQueue_loop e rc rb 0 (0, 0) s0 of
              TypeError (cnt, s1) \<Rightarrow> TypeError s1
            | Returned ((retrySuccessful, retryFailed), s1) \<Rightarrow>
                Returned
                  (s1\<lparr>stats := (stats s1)\<lparr>successful := successful (stats s1) + retrySuccessful,
                                           failed := failed (stats s1) + retryFailed\<rparr>,
                      retryQueue := []\<rparr>))"
    using False by (simp add: processRetryQueue_def Let_def s0_def rc_def rb_def)
  show ?thesis
  proof (cases "processRetryQueue_loop e rc rb 0 (0, 0) s0")
    case (Returned x)
    obtain a b s1 where x: "x = ((a, b), s1)" by (cases x) auto
    then have "P s1" using inv Returned by simp
    then show ?thesis using assms(6) Returned x by (simp add: eq)
  next
    case (TypeError x)
    obtain c s1 where x: "x = (c, s1)" by (cases x)
    then have "P s1" using inv TypeError by simp
    then show ?thesis using TypeError x by (simp add: eq)
  qed
qed

lemma processRetryQueue_sent: "sent (stats (session_of (processRetryQueue e s))) = sent (stats s)"
  by (rule processRetryQueue_invariant) simp_all

lemma processRetryQueue_config: "config (session_of (processRetryQueue e s)) = config s"
  by (rule processRetryQueue_invariant) simp_all

lemma processRetryQueue_trafficSessions:
  "trafficSessions (session_of (processRetryQueue e s)) = trafficSessions s"
  by (rule processRetryQueue_invariant) simp_all

subsection \<open>Finalization\<close>

lemma complete_fields [simp]:
  "config (complete e s) = config s"
  "\<not> isRunning (complete e s)"
  "stats (complete e s) = stats s"
  "performance (complete e s) = performance s"
  "retryQueue (complete e s) = retryQueue s"
  "requestQueue (complete e s) = requestQueue s"
  "history (complete e s) = history s"
  "aborted (complete e s) = aborted s"
  by (simp_all add: complete_def saveSessionResults_def Let_def)

lemma show_nat_0: "show_nat 0 = ''0''"
  by (subst show_nat.simps) (simp add: digit_def)

lemma toFixed1_0: "toFixed1 (Fin 0) = ''0.0''"
  by (simp add: toFixed1_def fixed1_def show_nat_0)

lemma complete_no_traffic:
  assumes "sent (stats s) = 0" and "successful (stats s) = 0" and "trafficSessions s = []"
  shows "trafficSessions (complete e s) =
           [\<lparr>totalRequests = 0, final_successful = 0, final_failed = failed (stats s),
             final_successRate = ''NaN%'',
             averageRate = (if sessionMs e = 0 then ''NaN/sec'' else ''0.0/sec'')\<rparr>]"
  using assms
  by (simp add: complete_def saveSessionResults_def Let_def js_div_def toFixed1_def toFixed1_0 fixed1_def show_nat_0)
subsection \<open>Sessions without traffic\<close>

lemma processBatchResults_sent_mono:
  "k \<le> sent (stats s) \<Longrightarrow> k \<le> sent (stats (processBatchResults results s))"
  by (rule processBatchResults_rule) simp_all

lemma processBatchResults_counts_first:
  "results \<noteq> [] \<Longrightarrow> sent (stats s) + 1 \<le> sent (stats (processBatchResults results s))"
proof (cases results)
  case Nil
  assume "results \<noteq> []"
  then show ?thesis using Nil by simp
next
  case (Cons x rest)
  obtain r res where x: "x = (r, res)" by (cases x)
  show ?thesis
  proof (cases "res = Undefined")
    case True
    then show ?thesis using Cons x by simp
  next
    case False
    have "sent (stats s) + 1 \<le> sent (stats (processResult r res s))" by simp
    then have "sent (stats s) + 1 \<le> sent (stats (processBatchResults rest (processResult r res s)))"
      by (rule processBatchResults_sent_mono)
    then show ?thesis using Cons x False by simp
  qed
qed

lemma launch_fires_first:
  "isRunning s \<Longrightarrow> batch \<noteq> [] \<Longrightarrow> fst (launch e b j batch s) \<noteq> []"
  by (cases batch) (simp_all add: Let_def case_prod_beta)

lemma processBatch_counts_first:
  assumes "isRunning s" and "batch \<noteq> []"
  shows "sent (stats s) + 1 \<le> sent (stats (processBatch e batch b s))"
proof -
  have "batch_results e batch b s \<noteq> []"
    using launch_fires_first [OF assms] by (simp add: batch_results_def)
  then have "sent (stats (joined e batch b s)) + 1 \<le>
      sent (stats (processBatchResults (batch_results e batch b s) (joined e batch b s)))"
    by (rule processBatchResults_counts_first)
  then show ?thesis by (simp add: processBatch_unfold)
qed

lemma ceil_div_pos:
  assumes "0 < n" and "0 < w"
  shows "0 < ceil_div n w"
proof -
  have "0 < real n / real_of_int w" using assms by simp
  then have "0 < \<lceil>real n / real_of_int w\<rceil>" by simp
  then show ?thesis by (simp add: ceil_div_def)
qed

lemma processOptimizedBatches_counts_first:
  assumes "isRunning s" and "requestQueue s \<noteq> []" and "1 \<le> concurrency s"
  shows "1 \<le> sent (stats (processOptimizedBatches e s))"
proof -
  let ?tb = "ceil_div (length (requestQueue s)) (concurrency s)"
  let ?c = "nat (concurrency s)"
  let ?n = "length (requestQueue s)"
  have tb: "0 < ?tb" using assms by (intro ceil_div_pos) simp_all
  have c: "0 < ?c" using assms(3) by simp
  have n: "0 < ?n" using assms(2) by simp
  let ?batch = "slice [0..<?n] (0 * ?c) (min (0 * ?c + ?c) ?n)"
  have "?batch \<noteq> []" using c n by (simp add: slice_def)
  then have "sent (stats s) + 1 \<le> sent (stats (processBatch e ?batch 0 s))"
    using assms(1) by (intro processBatch_counts_first)
  then have b: "1 \<le> sent (stats (processOptimizedBatches_body e ?tb 0 s))"
    by (simp add: processOptimizedBatches_body_def Let_def)
  have "processOptimizedBatches e s =
          processOptimizedBatches_loop e ?tb (Suc 0) (processOptimizedBatches_body e ?tb 0 s)"
    unfolding processOptimizedBatches_def
    using tb assms(1) by (subst processOptimizedBatches_loop.simps) simp
  then show ?thesis using processOptimizedBatches_loop_sent_mono [OF b] by simp
qed

lemma start_sent:
  assumes "\<not> isRunning s"
  shows "sent (stats (session_of (start e s))) =
           sent (stats (processOptimizedBatches e (s\<lparr>isRunning := True\<rparr>)))"
proof -
  let ?s1 = "processOptimizedBatches e (s\<lparr>isRunning := True\<rparr>)"
  show ?thesis
  proof (cases "0 < length (retryQueue ?s1)")
    case False
    then show ?thesis using assms by (simp add: start_def Let_def)
  next
    case True
    have "sent (stats (session_of (processRetryQueue e ?s1))) = sent (stats ?s1)"
      by (rule processRetryQueue_sent)
    then show ?thesis using assms True
      by (cases "processRetryQueue e ?s1") (simp_all add: start_def Let_def)
  qed
qed

lemma start_no_impressions:
  assumes "impressions c \<le> 0"
  shows "start e (TrafficSession c) = Returned (complete e ((TrafficSession c)\<lparr>isRunning := True\<rparr>))"
proof -
  have "processOptimizedBatches e ((TrafficSession c)\<lparr>isRunning := True\<rparr>) =
          (TrafficSession c)\<lparr>isRunning := True\<rparr>"
    unfolding processOptimizedBatches_def
    using assms by (subst processOptimizedBatches_loop.simps) (simp add: ceil_div_def)
  then show ?thesis by (simp add: start_def Let_def)
qed

lemma complete_last:
  assumes "sent (stats s) = 0" and "successful (stats s) = 0"
  shows "last (trafficSessions (complete e s)) =
           \<lparr>totalRequests = 0, final_successful = 0, final_failed = failed (stats s),
            final_successRate = ''NaN%'',
            averageRate = (if sessionMs e = 0 then ''NaN/sec'' else ''0.0/sec'')\<rparr>"
proof -
  let ?st = "\<lparr>totalRequests = 0, final_successful = 0, final_failed = failed (stats s),
            final_successRate = ''NaN%'',
            averageRate = (if sessionMs e = 0 then ''NaN/sec'' else ''0.0/sec'')\<rparr>"
  let ?xs = "trafficSessions s @ [?st]"
  have "trafficSessions (complete e s) = drop (length ?xs - 10) ?xs"
    using assms
    by (simp add: complete_def saveSessionResults_def Let_def js_div_def toFixed1_def toFixed1_0
        fixed1_def show_nat_0)
  moreover have "length ?xs - 10 < length ?xs" by simp
  then have "last (drop (length ?xs - 10) ?xs) = last ?xs" by (rule last_drop)
  ultimately show ?thesis by simp
qed

text \<open>
  C10, as the code has it. Whenever \<open>complete()\<close> finds \<open>sent = 0\<close> (and with it no
  success counted), however the session came there, it divides without a guard: the
  summary it stores last has the success rate \<open>0 / 0 * 100\<close>, printed \<open>NaN%\<close>, while the
  tracker, whose division is guarded, reports 100 for the same counters; the average
  rate is \<open>0 / sessionDuration\<close>, which is \<open>NaN\<close> only when no millisecond has passed
  and \<open>0.0\<close> otherwise. In particular a session of the constructor that \<open>start()\<close> leaves
  with \<open>sent = 0\<close> has stored exactly this summary.
\<close>

theorem complete_without_traffic:
  "(sent (stats s) = 0 \<and> successful (stats s) = 0
    \<longrightarrow> final_successRate (last (trafficSessions (complete e s))) = ''NaN%''
        \<and> averageRate (last (trafficSessions (complete e s))) =
            (if sessionMs e = 0 then ''NaN/sec'' else ''0.0/sec'')
        \<and> totalRequests (last (trafficSessions (complete e s))) = 0
        \<and> successRate (performance (updatePerformanceMetrics d b t s)) = 100)
   \<and> (sent (stats (session_of (start e (TrafficSession c)))) = 0
    \<longrightarrow> trafficSessions (session_of (start e (TrafficSession c))) =
          [\<lparr>totalRequests = 0, final_successful = 0, final_failed = 0,
            final_successRate = ''NaN%'',
            averageRate = (if sessionMs e = 0 then ''NaN/sec'' else ''0.0/sec'')\<rparr>]
        \<and> successRate (snd (getStats (session_of (start e (TrafficSession c))))) = 100)"
proof -
  have state: "sent (stats s) = 0 \<and> successful (stats s) = 0
    \<longrightarrow> final_successRate (last (trafficSessions (complete e s))) = ''NaN%''
        \<and> averageRate (last (trafficSessions (complete e s))) =
            (if sessionMs e = 0 then ''NaN/sec'' else ''0.0/sec'')
        \<and> totalRequests (last (trafficSessions (complete e s))) = 0
        \<and> successRate (performance (updatePerformanceMetrics d b t s)) = 100"
    by (simp add: complete_last updatePerformanceMetrics_def)
  have session: "trafficSessions (session_of (start e (TrafficSession c))) =
          [\<lparr>totalRequests = 0, final_successful = 0, final_failed = 0,
            final_successRate = ''NaN%'',
            averageRate = (if sessionMs e = 0 then ''NaN/sec'' else ''0.0/sec'')\<rparr>]
        \<and> successRate (snd (getStats (session_of (start e (TrafficSession c))))) = 100"
    if zero: "sent (stats (session_of (start e (TrafficSession c)))) = 0"
  proof -
    let ?s0 = "(TrafficSession c)\<lparr>isRunning := True\<rparr>"
    have imp: "impressions c \<le> 0"
    proof (rule ccontr)
      assume "\<not> impressions c \<le> 0"
      then have q: "requestQueue ?s0 \<noteq> []" by simp
      have w: "1 \<le> concurrency ?s0" using TrafficSession_concurrency [of c] by simp
      have "1 \<le> sent (stats (processOptimizedBatches e ?s0))"
        using q w by (intro processOptimizedBatches_counts_first) simp_all
      then have "1 \<le> sent (stats (session_of (start e (TrafficSession c))))"
        by (simp add: start_sent)
      then show False using zero by simp
    qed
    have st: "start e (TrafficSession c) = Returned (complete e ?s0)"
      using imp by (rule start_no_impressions)
    have "trafficSessions (complete e ?s0) =
             [\<lparr>totalRequests = 0, final_successful = 0, final_failed = failed (stats ?s0),
               final_successRate = ''NaN%'',
               averageRate = (if sessionMs e = 0 then ''NaN/sec'' else ''0.0/sec'')\<rparr>]"
      by (rule complete_no_traffic) simp_all
    then show ?thesis using st by (simp add: getStats_def)
  qed
  from state session show ?thesis by blast
qed

theorem complete_without_traffic_witness:
  "sent (stats ((TrafficSession cfg_balanced)\<lparr>isRunning := True\<rparr>)) = 0
   \<and> successful (stats ((TrafficSession cfg_balanced)\<lparr>isRunning := True\<rparr>)) = 0
   \<and> final_successRate (last (trafficSessions
         (complete (constant_env (Http 200)) ((TrafficSession cfg_balanced)\<lparr>isRunning := True\<rparr>))))
       = ''NaN%''
   \<and> averageRate (last (trafficSessions
         (complete (constant_env (Http 200)) ((TrafficSession cfg_balanced)\<lparr>isRunning := True\<rparr>))))
       = ''0.0/sec''
   \<and> successRate (performance
         (updatePerformanceMetrics 10 True 1 ((TrafficSession cfg_balanced)\<lparr>isRunning := True\<rparr>)))
       = 100
   \<and> sent (stats (session_of (start (constant_env (Http 200)) (TrafficSession no_impressions)))) = 0
   \<and> trafficSessions (session_of (start (constant_env (Http 200)) (TrafficSession no_impressions))) =
       [\<lparr>totalRequests = 0, final_successful = 0, final_failed = 0,
         final_successRate = ''NaN%'', averageRate = ''0.0/sec''\<rparr>]
   \<and> successRate (snd (getStats (session_of (start (constant_env (Http 200))
        (TrafficSession no_impressions))))) = 100"
proof -
  have i: "impressions no_impressions \<le> 0" by (simp add: no_impressions_def)
  have h: "sent (stats (session_of (start (constant_env (Http 200)) (TrafficSession no_impressions)))) = 0"
    by (simp add: start_no_impressions [OF i])
  have z: "sent (stats ((TrafficSession cfg_balanced)\<lparr>isRunning := True\<rparr>)) = 0"
      "successful (stats ((TrafficSession cfg_balanced)\<lparr>isRunning := True\<rparr>)) = 0"
    by simp_all
  have m: "sessionMs (constant_env (Http 200)) \<noteq> 0" by (simp add: constant_env_def)
  from complete_without_traffic
         [where s = "(TrafficSession cfg_balanced)\<lparr>isRunning := True\<rparr>"
            and e = "constant_env (Http 200)" and d = 10 and b = True and t = 1
            and c = no_impressions]
       h z m
  show ?thesis by simp
qed

text \<open>
  C10 as stated fails for the average rate: in a session without impressions that is
  finalized five seconds after its start, the average rate is \<open>0 / 5\<close> and the summary
  shows \<open>0.0/sec\<close>, not the \<open>NaN\<close> of \<open>0 / 0\<close>.
\<close>

theorem average_rate_not_NaN:
  "sent (stats (session_of (start (constant_env (Http 200)) (TrafficSession no_impressions)))) = 0
   \<and> sessionMs (constant_env (Http 200)) = 5000
   \<and> map averageRate
        (trafficSessions (session_of (start (constant_env (Http 200)) (TrafficSession no_impressions))))
      = [''0.0/sec'']"
proof -
  have i: "impressions no_impressions \<le> 0" by (simp add: no_impressions_def)
  have m: "sessionMs (constant_env (Http 200)) = 5000" by (simp add: constant_env_def)
  have "trafficSessions (complete (constant_env (Http 200)) ((TrafficSession no_impressions)\<lparr>isRunning := True\<rparr>)) =
           [\<lparr>totalRequests = 0, final_successful = 0,
             final_failed = failed (stats ((TrafficSession no_impressions)\<lparr>isRunning := True\<rparr>)),
             final_successRate = ''NaN%'',
             averageRate = (if sessionMs (constant_env (Http 200)) = 0 then ''NaN/sec'' else ''0.0/sec'')\<rparr>]"
    by (rule complete_no_traffic) simp_all
  then show ?thesis using m by (simp add: start_no_impressions [OF i])
qed
subsection \<open>Two failing requests, evaluated\<close>

text \<open>
  C1 at a failing input. Two requests, every \<open>fetch\<close> answered with HTTP 500, three
  attempts allowed, no \<open>stop()\<close>. After the primary pass the counters add up
  (\<open>sent = 2\<close>, \<open>failed = 2\<close>). Both requests are in the retry queue; the retry pass adds
  their second failure to \<open>failed\<close> and nothing to \<open>sent\<close>, so the session ends with
  \<open>sent = 2\<close> and \<open>successful + failed = 4\<close>.
\<close>

theorem retry_pass_counts_twice:
  "stats (processOptimizedBatches (constant_env (Http 500))
            ((TrafficSession two_requests)\<lparr>isRunning := True\<rparr>)) =
     \<lparr>sent = 2, successful = 0, failed = 2, total = 2, batchCount = 2\<rparr>
   \<and> stats (session_of (start (constant_env (Http 500)) (TrafficSession two_requests))) =
     \<lparr>sent = 2, successful = 0, failed = 4, total = 2, batchCount = 2\<rparr>"
  by code_simp

text \<open>
  C8 at a failing input. Same session. When the first batch has been counted,
  \<open>sent = 1\<close> and \<open>successful = 0\<close>, yet \<open>getStats()\<close> reports a success rate of 100:
  \<open>updatePerformanceMetrics\<close> ran inside \<open>executeRequest\<close>, before the batch was counted,
  and read \<open>sent = 0\<close>. If the host calls \<open>stop()\<close> during that first batch, the session
  ends with this report.
\<close>

theorem successRate_stale_after_first_failure:
  "getStats (processOptimizedBatches_body (constant_env (Http 500)) 2 0
      ((TrafficSession two_requests)\<lparr>isRunning := True\<rparr>)) =
     (\<lparr>sent = 1, successful = 0, failed = 1, total = 2, batchCount = 1\<rparr>,
      \<lparr>averageResponseTime = 1 / 2, requestsPerSecond = 0, successRate = 100\<rparr>)
   \<and> getStats (session_of (start (stop_at (Join 0) (constant_env (Http 500)))
        (TrafficSession two_requests))) =
     (\<lparr>sent = 1, successful = 0, failed = 1, total = 2, batchCount = 1\<rparr>,
      \<lparr>averageResponseTime = 1 / 2, requestsPerSecond = 0, successRate = 100\<rparr>)"
  by code_simp
subsection \<open>A primary pass that is not stopped\<close>

lemma slice_upt: "endIdx \<le> n \<Longrightarrow> slice [0..<n] startIdx endIdx = [startIdx..<endIdx]"
  by (cases "startIdx \<le> endIdx") (simp_all add: slice_def drop_upt take_upt)

lemma ceil_div_less_iff:
  assumes "1 \<le> w"
  shows "(b < ceil_div n w) = (b * nat w < n)"
proof -
  have w: "0 < real_of_int w" using assms by simp
  have "(b < ceil_div n w) = (int b < \<lceil>real n / real_of_int w\<rceil>)"
    unfolding ceil_div_def by linarith
  also have "\<dots> = (real b < real n / real_of_int w)"
    by (simp add: less_ceiling_iff)
  also have "\<dots> = (real b * real_of_int w < real n)"
    using w by (simp add: pos_less_divide_eq)
  also have "\<dots> = (real (b * nat w) < real n)"
    using assms by simp
  also have "\<dots> = (b * nat w < n)"
    by (simp only: of_nat_less_iff)
  finally show ?thesis .
qed

lemma joined_quiet:
  assumes "\<And>pt. \<not> stopAt e pt" and "isRunning s"
  shows "isRunning (joined e batch b s)"
  using launch_quiet [of e b s 0 batch] assms
  by (simp add: joined_def Let_def case_prod_beta interrupt_quiet)

lemma batch_results_quiet:
  assumes "\<And>pt. \<not> stopAt e pt" and "isRunning s"
  shows "batch_results e batch b s =
           map (\<lambda>r. (r, fst (executeRequest_loop e (config s) Primary r 0))) batch"
  using launch_quiet [of e b s 0 batch] assms by (simp add: batch_results_def)

lemma processBatchResults_sent_defined:
  "(\<And>r res. (r, res) \<in> set results \<Longrightarrow> res \<noteq> Undefined) \<Longrightarrow>
     sent (stats (processBatchResults results s)) = sent (stats s) + length results"
proof (induction results arbitrary: s)
  case Nil
  then show ?case by simp
next
  case (Cons x results)
  obtain r res where x: "x = (r, res)" by (cases x)
  have d: "res \<noteq> Undefined" using Cons.prems [of r res] x by simp
  have "sent (stats (processBatchResults results (processResult r res s))) =
          sent (stats (processResult r res s)) + length results"
    using Cons.prems by (intro Cons.IH) auto
  then show ?case using d x by simp
qed

lemma processBatch_quiet:
  assumes "\<And>pt. \<not> stopAt e pt" and "isRunning s" and "1 \<le> maxRetries (config s)"
  shows "isRunning (processBatch e batch b s)
         \<and> sent (stats (processBatch e batch b s)) = sent (stats s) + length batch"
proof -
  have d: "\<And>r res. (r, res) \<in> set (batch_results e batch b s) \<Longrightarrow> res \<noteq> Undefined"
    using batch_results_defined [OF assms(3)] by blast
  have "sent (stats (processBatchResults (batch_results e batch b s) (joined e batch b s))) =
          sent (stats (joined e batch b s)) + length (batch_results e batch b s)"
    using d by (rule processBatchResults_sent_defined)
  then show ?thesis
    using joined_quiet [OF assms(1,2)] batch_results_quiet [OF assms(1,2)]
    by (simp add: processBatch_unfold)
qed

lemma adaptiveDelay_quiet:
  assumes "\<And>pt. \<not> stopAt e pt"
  shows "isRunning (adaptiveDelay e b s) = isRunning s"
  using assms by (simp add: adaptiveDelay_def interrupt_quiet)

lemma processOptimizedBatches_body_quiet:
  assumes "\<And>pt. \<not> stopAt e pt" and "isRunning s" and "1 \<le> maxRetries (config s)"
    and "1 \<le> concurrency s" and "b * nat (concurrency s) < length (requestQueue s)"
  shows "isRunning (processOptimizedBatches_body e tb b s)
         \<and> sent (stats (processOptimizedBatches_body e tb b s)) =
             sent (stats s) +
             (min (Suc b * nat (concurrency s)) (length (requestQueue s)) - b * nat (concurrency s))"
proof -
  let ?c = "nat (concurrency s)"
  let ?n = "length (requestQueue s)"
  let ?batch = "slice [0..<?n] (b * ?c) (min (b * ?c + ?c) ?n)"
  have batch: "?batch = [b * ?c..<min (b * ?c + ?c) ?n]"
    by (rule slice_upt) simp
  have len: "length ?batch = min (Suc b * ?c) ?n - b * ?c"
    unfolding batch by (simp add: add.commute)
  have pb: "isRunning (processBatch e ?batch b s)
         \<and> sent (stats (processBatch e ?batch b s)) = sent (stats s) + length ?batch"
    using assms(1,2,3) by (rule processBatch_quiet)
  show ?thesis
    using pb len adaptiveDelay_quiet [OF assms(1)]
    by (simp add: processOptimizedBatches_body_def Let_def)
qed

lemma quiet_primary_pass:
  assumes quiet: "\<And>pt. \<not> stopAt e pt" and run: "isRunning s"
    and mr: "1 \<le> maxRetries (config s)" and c: "1 \<le> concurrency s"
  shows "isRunning (processOptimizedBatches e s)
         \<and> sent (stats (processOptimizedBatches e s)) = sent (stats s) + length (requestQueue s)"
proof -
  let ?c = "nat (concurrency s)"
  let ?n = "length (requestQueue s)"
  let ?tb = "ceil_div ?n (concurrency s)"
  let ?P = "\<lambda>b t. isRunning t \<and> config t = config s \<and> concurrency t = concurrency s
             \<and> length (requestQueue t) = ?n
             \<and> sent (stats t) = sent (stats s) + min (b * ?c) ?n"
  have init: "?P 0 s" using run by simp
  have step: "\<And>b t. b < ?tb \<Longrightarrow> isRunning t \<Longrightarrow> ?P b t \<Longrightarrow>
                ?P (Suc b) (processOptimizedBatches_body e ?tb b t)"
  proof -
    fix b and t :: session
    assume b: "b < ?tb" and P: "?P b t"
    have lt: "b * ?c < ?n" using b c by (simp add: ceil_div_less_iff)
    have "isRunning (processOptimizedBatches_body e ?tb b t)
         \<and> sent (stats (processOptimizedBatches_body e ?tb b t)) =
             sent (stats t) +
             (min (Suc b * nat (concurrency t)) (length (requestQueue t)) - b * nat (concurrency t))"
      using quiet P mr c lt by (intro processOptimizedBatches_body_quiet) simp_all
    then show "?P (Suc b) (processOptimizedBatches_body e ?tb b t)"
      using P lt by simp
  qed
  from processOptimizedBatches_loop_rule [of ?P 0 s ?tb e, OF init step]
  obtain b' where b': "?P b' (processOptimizedBatches_loop e ?tb 0 s)"
      "b' < ?tb \<longrightarrow> \<not> isRunning (processOptimizedBatches_loop e ?tb 0 s)"
    by blast
  then have "\<not> b' < ?tb" by blast
  then have "\<not> b' * ?c < ?n" using c by (simp add: ceil_div_less_iff)
  then have "min (b' * ?c) ?n = ?n" by simp
  then show ?thesis using b'(1) by (simp add: processOptimizedBatches_def)
qed
subsection \<open>Outcome classification\<close>

lemma processBatch_rule:
  assumes "P (joined e batch b s)"
    and "\<And>r res t. (r, res) \<in> set (batch_results e batch b s) \<Longrightarrow> P t \<Longrightarrow>
           P (processResult r res t)"
    and "\<And>t. P t \<Longrightarrow>
           P (t\<lparr>currentBatch := None,
                stats := (stats t)\<lparr>batchCount := batchCount (stats t) + 1\<rparr>\<rparr>)"
  shows "P (processBatch e batch b s)"
proof -
  have "P (processBatchResults (batch_results e batch b s) (joined e batch b s))"
    using assms(1,2) by (rule processBatchResults_rule)
  then show ?thesis unfolding processBatch_unfold by (rule assms(3))
qed

lemma show_nat_403: "show_nat 403 = ''403''"
  by (simp add: show_nat.simps digit_def)

lemma show_nat_404: "show_nat 404 = ''404''"
  by (simp add: show_nat.simps digit_def)

lemma executeRequest_loop_delivered:
  assumes "int attempt < maxRetries c" and "classify (fetch e p r attempt) = Delivered n"
  shows "executeRequest_loop e c p r attempt = (Success n, [Fetch p r attempt])"
  using assms by (subst executeRequest_loop.simps) simp

lemma executeRequest_loop_thrown:
  assumes "int attempt < maxRetries c" and "classify (fetch e p r attempt) = Thrown"
  shows "fst (executeRequest_loop e c p r attempt) =
           (if int (Suc attempt) = maxRetries c then Failure
            else fst (executeRequest_loop e c p r (Suc attempt)))"
  using assms by (subst executeRequest_loop.simps) (simp add: case_prod_beta)

lemma all_delivered_primary_pass:
  assumes d: "\<And>r. \<exists>n. fst (executeRequest_loop e (config s) Primary r 0) = Success n"
    and "successful (stats s) = sent (stats s)" and "failed (stats s) = 0" and "retryQueue s = []"
  shows "successful (stats (processOptimizedBatches e s)) = sent (stats (processOptimizedBatches e s))
         \<and> failed (stats (processOptimizedBatches e s)) = 0
         \<and> retryQueue (processOptimizedBatches e s) = []"
proof -
  let ?P = "\<lambda>t. config t = config s \<and> successful (stats t) = sent (stats t)
                \<and> failed (stats t) = 0 \<and> retryQueue t = []"
  have "?P (processOptimizedBatches e s)"
    unfolding processOptimizedBatches_def
  proof (rule processOptimizedBatches_loop_invariant)
    show "?P s" using assms by simp
  next
    fix b tb and t :: session
    assume P: "?P t"
    let ?n = "length (requestQueue t)"
    let ?c = "nat (concurrency t)"
    let ?batch = "slice [0..<?n] (b * ?c) (min (b * ?c + ?c) ?n)"
    have "?P (processBatch e ?batch b t)"
    proof (rule processBatch_rule)
      show "?P (joined e ?batch b t)" using P by simp
    next
      fix r res and u :: session
      assume "(r, res) \<in> set (batch_results e ?batch b t)" and u: "?P u"
      then obtain n where "res = Success n"
        using d P by (auto simp add: batch_results_def)
      then show "?P (processResult r res u)"
        using u by (simp add: processResult_def Let_def)
    next
      fix u :: session
      assume "?P u"
      then show "?P (u\<lparr>currentBatch := None,
                stats := (stats u)\<lparr>batchCount := batchCount (stats u) + 1\<rparr>\<rparr>)"
        by simp
    qed
    then show "?P (processOptimizedBatches_body e tb b t)"
      by (simp add: processOptimizedBatches_body_def Let_def)
  qed
  then show ?thesis by simp
qed

text \<open>
  C3. An attempt whose \<open>fetch\<close> is rejected, or answered with a status of 500 or more,
  or with a 4xx status other than 403 and 404, throws into the \<open>catch\<close> block, where it
  is retried unless it was the last attempt allowed (then the request has failed). A
  status of 403 or 404 makes \<open>executeRequest\<close> return a success at once, with the note
  \<open>HTTP 403\<close> or \<open>HTTP 404\<close>; a 2xx or 3xx status returns a success without a note.
  So a session that is not stopped, allows at least one attempt and gets HTTP 404 for
  every request ends with \<open>successful = sent = total\<close> and \<open>failed = 0\<close>.
\<close>

theorem classification_and_all_404:
  "classify Rejected = Thrown
   \<and> (500 \<le> status5 \<longrightarrow> classify (Http status5) = Thrown)
   \<and> classify (Http 403) = Delivered (Some ''HTTP 403'')
   \<and> classify (Http 404) = Delivered (Some ''HTTP 404'')
   \<and> (400 \<le> status4 \<and> status4 < 500 \<and> status4 \<noteq> 403 \<and> status4 \<noteq> 404
        \<longrightarrow> classify (Http status4) = Thrown)
   \<and> (200 \<le> status2 \<and> status2 < 400 \<longrightarrow> classify (Http status2) = Delivered None)
   \<and> (int attempt < maxRetries c \<and> classify (fetch e p r attempt) = Thrown
        \<longrightarrow> fst (executeRequest_loop e c p r attempt) =
              (if int (Suc attempt) = maxRetries c then Failure
               else fst (executeRequest_loop e c p r (Suc attempt))))
   \<and> (int attempt < maxRetries c \<and> classify (fetch e p r attempt) = Delivered n
        \<longrightarrow> executeRequest_loop e c p r attempt = (Success n, [Fetch p r attempt]))
   \<and> (1 \<le> maxRetries c \<and> 0 \<le> impressions c
        \<and> (\<forall>p r a. fetch e p r a = Http 404) \<and> (\<forall>pt. \<not> stopAt e pt)
        \<longrightarrow> start e (TrafficSession c) = Returned (session_of (start e (TrafficSession c)))
            \<and> int (successful (stats (session_of (start e (TrafficSession c))))) =
                total (stats (session_of (start e (TrafficSession c))))
            \<and> int (sent (stats (session_of (start e (TrafficSession c))))) =
                total (stats (session_of (start e (TrafficSession c))))
            \<and> failed (stats (session_of (start e (TrafficSession c)))) = 0)"
proof -
  have c1: "classify Rejected = Thrown" by (simp add: classify_def)
  have c2: "500 \<le> status5 \<longrightarrow> classify (Http status5) = Thrown"
    by (simp add: classify_def ok_def)
  have c3: "classify (Http 403) = Delivered (Some ''HTTP 403'')"
    by (simp add: classify_def ok_def show_nat_403)
  have c4: "classify (Http 404) = Delivered (Some ''HTTP 404'')"
    by (simp add: classify_def ok_def show_nat_404)
  have c5: "400 \<le> status4 \<and> status4 < 500 \<and> status4 \<noteq> 403 \<and> status4 \<noteq> 404
        \<longrightarrow> classify (Http status4) = Thrown"
    by (simp add: classify_def ok_def)
  have c6: "200 \<le> status2 \<and> status2 < 400 \<longrightarrow> classify (Http status2) = Delivered None"
    by (simp add: classify_def ok_def)
  have c7: "int attempt < maxRetries c \<and> classify (fetch e p r attempt) = Thrown
        \<longrightarrow> fst (executeRequest_loop e c p r attempt) =
              (if int (Suc attempt) = maxRetries c then Failure
               else fst (executeRequest_loop e c p r (Suc attempt)))"
    using executeRequest_loop_thrown by blast
  have c8: "int attempt < maxRetries c \<and> classify (fetch e p r attempt) = Delivered n
        \<longrightarrow> executeRequest_loop e c p r attempt = (Success n, [Fetch p r attempt])"
    using executeRequest_loop_delivered by blast
  have c9: "1 \<le> maxRetries c \<and> 0 \<le> impressions c
        \<and> (\<forall>p r a. fetch e p r a = Http 404) \<and> (\<forall>pt. \<not> stopAt e pt)
        \<longrightarrow> start e (TrafficSession c) = Returned (session_of (start e (TrafficSession c)))
            \<and> int (successful (stats (session_of (start e (TrafficSession c))))) =
                total (stats (session_of (start e (TrafficSession c))))
            \<and> int (sent (stats (session_of (start e (TrafficSession c))))) =
                total (stats (session_of (start e (TrafficSession c))))
            \<and> failed (stats (session_of (start e (TrafficSession c)))) = 0"
  proof
    assume h: "1 \<le> maxRetries c \<and> 0 \<le> impressions c
        \<and> (\<forall>p r a. fetch e p r a = Http 404) \<and> (\<forall>pt. \<not> stopAt e pt)"
    let ?s0 = "(TrafficSession c)\<lparr>isRunning := True\<rparr>"
    let ?s1 = "processOptimizedBatches e ?s0"
    have quiet: "\<And>pt. \<not> stopAt e pt" using h by blast
    have w: "1 \<le> concurrency ?s0" using TrafficSession_concurrency [of c] by simp
    have sent1: "sent (stats ?s1) = sent (stats ?s0) + length (requestQueue ?s0)"
      using quiet_primary_pass [OF quiet, of ?s0] h w by simp
    have del: "\<And>r. \<exists>n. fst (executeRequest_loop e (config ?s0) Primary r 0) = Success n"
    proof -
      fix r
      have "classify (fetch e Primary r 0) = Delivered (Some ''HTTP 404'')"
        using h c4 by simp
      then have "executeRequest_loop e (config ?s0) Primary r 0 =
                   (Success (Some ''HTTP 404''), [Fetch Primary r 0])"
        using h by (intro executeRequest_loop_delivered) simp_all
      then show "\<exists>n. fst (executeRequest_loop e (config ?s0) Primary r 0) = Success n"
        by simp
    qed
    have all: "successful (stats ?s1) = sent (stats ?s1) \<and> failed (stats ?s1) = 0
                 \<and> retryQueue ?s1 = []"
      using del by (rule all_delivered_primary_pass) simp_all
    have st: "start e (TrafficSession c) = Returned (complete e ?s1)"
      using all by (simp add: start_def Let_def)
    have tot: "total (stats ?s1) = impressions c"
      by (simp add: processOptimizedBatches_def)
    show "start e (TrafficSession c) = Returned (session_of (start e (TrafficSession c)))
            \<and> int (successful (stats (session_of (start e (TrafficSession c))))) =
                total (stats (session_of (start e (TrafficSession c))))
            \<and> int (sent (stats (session_of (start e (TrafficSession c))))) =
                total (stats (session_of (start e (TrafficSession c))))
            \<and> failed (stats (session_of (start e (TrafficSession c)))) = 0"
      using st all sent1 tot h by simp
  qed
  from c1 c2 c3 c4 c5 c6 c7 c8 c9 show ?thesis by blast
qed

theorem classification_and_all_404_witness:
  "(500::nat) \<le> 503 \<and> classify (Http 503) = Thrown
   \<and> (400::nat) \<le> 429 \<and> (429::nat) < 500 \<and> (429::nat) \<noteq> 403 \<and> (429::nat) \<noteq> 404
   \<and> classify (Http 429) = Thrown
   \<and> (200::nat) \<le> 302 \<and> (302::nat) < 400 \<and> classify (Http 302) = Delivered None
   \<and> int 2 < maxRetries two_requests
   \<and> classify (fetch (constant_env (Http 500)) Primary 0 2) = Thrown
   \<and> fst (executeRequest_loop (constant_env (Http 500)) two_requests Primary 0 2) = Failure
   \<and> int 0 < maxRetries two_requests
   \<and> classify (fetch (constant_env (Http 404)) Primary 0 0) = Delivered (Some ''HTTP 404'')
   \<and> executeRequest_loop (constant_env (Http 404)) two_requests Primary 0 0 =
       (Success (Some ''HTTP 404''), [Fetch Primary 0 0])
   \<and> 1 \<le> maxRetries two_requests \<and> 0 \<le> impressions two_requests
   \<and> (\<forall>p r a. fetch (constant_env (Http 404)) p r a = Http 404)
   \<and> (\<forall>pt. \<not> stopAt (constant_env (Http 404)) pt)
   \<and> successful (stats (session_of (start (constant_env (Http 404)) (TrafficSession two_requests)))) = 2
   \<and> failed (stats (session_of (start (constant_env (Http 404)) (TrafficSession two_requests)))) = 0"
proof -
  have m: "maxRetries two_requests = 3" "impressions two_requests = 2"
    by (simp_all add: two_requests_def)
  have f5: "\<And>p r a. fetch (constant_env (Http 500)) p r a = Http 500"
    by (simp add: constant_env_def)
  have f4: "\<forall>p r a. fetch (constant_env (Http 404)) p r a = Http 404"
    by (simp add: constant_env_def)
  have q: "\<forall>pt. \<not> stopAt (constant_env (Http 404)) pt"
    by (simp add: constant_env_def)
  have t: "total (stats (session_of (start (constant_env (Http 404)) (TrafficSession two_requests)))) = 2"
    by code_simp
  have k: "classify (Http 500) = Thrown" "classify (Http 404) = Delivered (Some ''HTTP 404'')"
    by (simp_all add: classify_def ok_def show_nat_404)
  note a = classification_and_all_404
             [of 503 429 302 2 two_requests "constant_env (Http 500)" Primary 0 "Some ''HTTP 404''"]
  note b = classification_and_all_404
             [of 503 429 302 0 two_requests "constant_env (Http 404)" Primary 0 "Some ''HTTP 404''"]
  from a b m f5 f4 q t k show ?thesis by simp
qed
subsection \<open>The events of a batch\<close>

lemma executeRequest_loop_events:
  "ev \<in> set (snd (executeRequest_loop e c p r attempt)) \<Longrightarrow> is_sleep ev \<or> (\<exists>a. ev = Fetch p r a)"
proof (induction e c p r attempt rule: executeRequest_loop.induct)
  case (1 e c p r attempt)
  show ?case
  proof (cases "int attempt < maxRetries c")
    case False
    then show ?thesis using "1.prems" by (simp add: executeRequest_loop_undefined)
  next
    case lt: True
    show ?thesis
    proof (cases "classify (fetch e p r attempt)")
      case (Delivered n)
      then show ?thesis using "1.prems" lt by (simp add: executeRequest_loop_delivered)
    next
      case Thrown
      show ?thesis
      proof (cases "int (Suc attempt) = maxRetries c")
        case True
        have "executeRequest_loop e c p r attempt = (Failure, [Fetch p r attempt])"
          using lt Thrown True by (subst executeRequest_loop.simps) simp
        then show ?thesis using "1.prems" by simp
      next
        case False
        have "snd (executeRequest_loop e c p r attempt) =
                Fetch p r attempt #
                Sleep Backoff
                  (backoffDelay (Suc attempt) (mathRandom e (BackoffDraw p r (Suc attempt)))) #
                snd (executeRequest_loop e c p r (Suc attempt))"
          using lt Thrown False by (subst executeRequest_loop.simps) (simp add: case_prod_beta)
        then have "ev = Fetch p r attempt \<or> is_sleep ev
                     \<or> ev \<in> set (snd (executeRequest_loop e c p r (Suc attempt)))"
          using "1.prems" by (auto simp add: is_sleep_def)
        then show ?thesis using "1.IH" [OF lt Thrown False] by blast
      qed
    qed
  qed
qed

lemma settle_events:
  "\<exists>evs. history (snd (settle e p rs s)) = history s @ evs
         \<and> (\<forall>ev\<in>set evs. is_sleep ev \<or> (\<exists>r\<in>set rs. \<exists>a. ev = Fetch p r a))"
proof -
  let ?evs = "concat (map (\<lambda>r. snd (executeRequest_loop e (config s) p r 0)) rs)"
  have "\<forall>ev\<in>set ?evs. is_sleep ev \<or> (\<exists>r\<in>set rs. \<exists>a. ev = Fetch p r a)"
    using executeRequest_loop_events by fastforce
  then show ?thesis using settle_history [of e p rs s] by blast
qed

lemma joined_history:
  "\<exists>evs. history (joined e batch b s) = history s @ evs
         \<and> (\<forall>ev\<in>set evs. is_sleep ev \<or> (\<exists>r\<in>set batch. \<exists>a. ev = Fetch Primary r a))"
proof -
  let ?fired = "fst (launch e b 0 batch s)"
  let ?s1 = "snd (launch e b 0 batch s)"
  let ?s2 = "interrupt e (Join b) (?s1\<lparr>currentBatch := Some ?fired\<rparr>)"
  obtain evs1 where e1: "history ?s1 = history s @ evs1" "\<forall>ev\<in>set evs1. is_sleep ev"
    using launch_history [of e b 0 batch s] by blast
  obtain evs2 where e2: "history (snd (settle e Primary ?fired ?s2)) = history ?s2 @ evs2"
      "\<forall>ev\<in>set evs2. is_sleep ev \<or> (\<exists>r\<in>set ?fired. \<exists>a. ev = Fetch Primary r a)"
    using settle_events [of e Primary ?fired ?s2] by blast
  have sub: "set ?fired \<subseteq> set batch" by (rule launch_subset)
  have "history (joined e batch b s) = history s @ (evs1 @ evs2)"
    using e1 e2 by (simp add: joined_def Let_def case_prod_beta)
  moreover have "\<forall>ev\<in>set (evs1 @ evs2).
      is_sleep ev \<or> (\<exists>r\<in>set batch. \<exists>a. ev = Fetch Primary r a)"
    using e1(2) e2(2) sub by auto
  ultimately show ?thesis by blast
qed

subsection \<open>Retry counters\<close>

lemma retry_bounded_mono: "U \<subseteq> V \<Longrightarrow> retry_bounded U s \<Longrightarrow> retry_bounded V s"
  by (auto simp add: retry_bounded_def)

lemma retry_bounded_history:
  assumes "retry_bounded U s" and "config t = config s" and "requestQueue t = requestQueue s"
    and "history t = history s @ evs" and "\<And>r m. Bump r m \<notin> set evs"
  shows "retry_bounded U t"
  using assms by (auto simp add: retry_bounded_def)

lemma processResult_bounded:
  assumes "r \<notin> U" and "r < length (requestQueue s)"
    and "res = Failure \<Longrightarrow> 1 \<le> maxRetries (config s)" and "retry_bounded U s"
  shows "retry_bounded (insert r U) (processResult r res s)"
proof (cases res)
  case (Success n)
  then show ?thesis using assms(4)
    by (auto simp add: retry_bounded_def processResult_def Let_def)
next
  case Undefined
  then show ?thesis using assms(4)
    by (auto simp add: retry_bounded_def processResult_def Let_def)
next
  case Failure
  have z: "retryCount (requestQueue s ! r) = 0"
    using assms(1,2,4) by (simp add: retry_bounded_def)
  have m: "1 \<le> maxRetries (config s)" using assms(3) Failure by simp
  show ?thesis
  proof (cases "length (retryQueue s) < 1000")
    case False
    then show ?thesis using assms(4) Failure
      by (auto simp add: retry_bounded_def processResult_def Let_def)
  next
    case True
    have q: "requestQueue (processResult r res s) =
               (requestQueue s)[r := (requestQueue s ! r)\<lparr>retryCount := 1\<rparr>]"
      using True Failure z by (simp add: processResult_def Let_def)
    have h: "history (processResult r res s) = history s @ [Bump r 1]"
      using True Failure z by (simp add: processResult_def Let_def)
    have c: "config (processResult r res s) = config s" by simp
    show ?thesis
      unfolding retry_bounded_def q h c
      using assms(2,4) m by (auto simp add: retry_bounded_def nth_list_update)
  qed
qed

lemma processBatchResults_bounded:
  assumes "distinct (map fst results)"
    and "\<And>r res. (r, res) \<in> set results \<Longrightarrow>
           r \<notin> U \<and> r < length (requestQueue s) \<and> (res = Failure \<longrightarrow> 1 \<le> maxRetries (config s))"
    and "retry_bounded U s"
  shows "retry_bounded (U \<union> fst ` set results) (processBatchResults results s)"
  using assms
proof (induction results arbitrary: U s)
  case Nil
  then show ?case by simp
next
  case (Cons x results)
  obtain r res where x: "x = (r, res)" by (cases x)
  have rp: "r \<notin> U \<and> r < length (requestQueue s) \<and> (res = Failure \<longrightarrow> 1 \<le> maxRetries (config s))"
    using Cons.prems(2) [of r res] x by simp
  have step: "retry_bounded (insert r U) (processResult r res s)"
    using rp Cons.prems(3) by (intro processResult_bounded) simp_all
  show ?case
  proof (cases "res = Undefined")
    case True
    have "insert r U \<subseteq> U \<union> fst ` set (x # results)" using x by auto
    then have "retry_bounded (U \<union> fst ` set (x # results)) (processResult r res s)"
      using step by (rule retry_bounded_mono)
    then show ?thesis using True x by simp
  next
    case False
    have d: "distinct (map fst results)" using Cons.prems(1) by simp
    have fresh: "\<And>r' res'. (r', res') \<in> set results \<Longrightarrow>
           r' \<notin> insert r U \<and> r' < length (requestQueue (processResult r res s))
           \<and> (res' = Failure \<longrightarrow> 1 \<le> maxRetries (config (processResult r res s)))"
    proof -
      fix r' res'
      assume m: "(r', res') \<in> set results"
      then have "r' \<in> fst ` set results" by force
      then have "r' \<noteq> r" using Cons.prems(1) x by auto
      then show "r' \<notin> insert r U \<and> r' < length (requestQueue (processResult r res s))
           \<and> (res' = Failure \<longrightarrow> 1 \<le> maxRetries (config (processResult r res s)))"
        using Cons.prems(2) [of r' res'] m by simp
    qed
    have "retry_bounded (insert r U \<union> fst ` set results)
            (processBatchResults results (processResult r res s))"
      using d fresh step by (rule Cons.IH)
    moreover have "insert r U \<union> fst ` set results = U \<union> fst ` set (x # results)"
      using x by auto
    ultimately show ?thesis using False x by simp
  qed
qed

lemma processBatch_bounded:
  assumes "distinct batch" and "\<And>r. r \<in> set batch \<Longrightarrow> r \<notin> U \<and> r < length (requestQueue s)"
    and "retry_bounded U s"
  shows "retry_bounded (U \<union> set batch) (processBatch e batch b s)"
proof -
  let ?results = "batch_results e batch b s"
  let ?j = "joined e batch b s"
  obtain k where k: "fst (launch e b 0 batch s) = take k batch"
    using launch_prefix by blast
  have refs: "map fst ?results = take k batch"
    using k by (simp add: batch_results_def comp_def)
  have d: "distinct (map fst ?results)" using assms(1) refs by simp
  obtain evs where evs: "history ?j = history s @ evs"
      "\<forall>ev\<in>set evs. is_sleep ev \<or> (\<exists>r\<in>set batch. \<exists>a. ev = Fetch Primary r a)"
    using joined_history by blast
  have nb: "\<And>r m. Bump r m \<notin> set evs"
    using evs(2) by (fastforce simp add: is_sleep_def)
  have bj: "retry_bounded U ?j"
    using assms(3) _ _ evs(1) nb by (rule retry_bounded_history) simp_all
  have ok: "\<And>r res. (r, res) \<in> set ?results \<Longrightarrow>
           r \<notin> U \<and> r < length (requestQueue ?j) \<and> (res = Failure \<longrightarrow> 1 \<le> maxRetries (config ?j))"
  proof -
    fix r res
    assume m: "(r, res) \<in> set ?results"
    then have "r \<in> set batch" using batch_results_refs [of e batch b s] by force
    moreover have "res = fst (executeRequest_loop e (config s) Primary r 0)"
      using m by (auto simp add: batch_results_def)
    ultimately show "r \<notin> U \<and> r < length (requestQueue ?j)
                       \<and> (res = Failure \<longrightarrow> 1 \<le> maxRetries (config ?j))"
      using assms(2) executeRequest_loop_Failure [of e "config s" Primary r 0] by simp
  qed
  have "retry_bounded (U \<union> fst ` set ?results) (processBatchResults ?results ?j)"
    using d ok bj by (rule processBatchResults_bounded)
  moreover have "U \<union> fst ` set ?results \<subseteq> U \<union> set batch"
    using batch_results_refs [of e batch b s] by auto
  ultimately have "retry_bounded (U \<union> set batch) (processBatchResults ?results ?j)"
    using retry_bounded_mono by blast
  then show ?thesis by (simp add: processBatch_unfold retry_bounded_def)
qed

lemma adaptiveDelay_bounded: "retry_bounded U s \<Longrightarrow> retry_bounded U (adaptiveDelay e b s)"
  by (auto simp add: retry_bounded_def adaptiveDelay_def)

lemma processOptimizedBatches_bounded:
  assumes "1 \<le> concurrency s" and "retry_bounded {} s"
  shows "\<exists>U. retry_bounded U (processOptimizedBatches e s)"
proof -
  let ?c = "nat (concurrency s)"
  let ?n = "length (requestQueue s)"
  let ?tb = "ceil_div ?n (concurrency s)"
  let ?P = "\<lambda>b t. concurrency t = concurrency s \<and> length (requestQueue t) = ?n
                  \<and> retry_bounded {i. i < b * ?c} t"
  have init: "?P 0 s" using assms(2) by simp
  have step: "\<And>b t. b < ?tb \<Longrightarrow> isRunning t \<Longrightarrow> ?P b t \<Longrightarrow>
                ?P (Suc b) (processOptimizedBatches_body e ?tb b t)"
  proof -
    fix b and t :: session
    assume P: "?P b t"
    let ?batch = "slice [0..<?n] (b * ?c) (min (b * ?c + ?c) ?n)"
    have batch: "?batch = [b * ?c..<min (b * ?c + ?c) ?n]"
      by (rule slice_upt) simp
    have "retry_bounded ({i. i < b * ?c} \<union> set ?batch) (processBatch e ?batch b t)"
      using P unfolding batch by (intro processBatch_bounded) simp_all
    moreover have "{i. i < b * ?c} \<union> set ?batch \<subseteq> {i. i < Suc b * ?c}"
      unfolding batch by auto
    ultimately have "retry_bounded {i. i < Suc b * ?c} (processBatch e ?batch b t)"
      using retry_bounded_mono by blast
    then have "retry_bounded {i. i < Suc b * ?c} (processOptimizedBatches_body e ?tb b t)"
      using P by (simp add: processOptimizedBatches_body_def Let_def adaptiveDelay_bounded)
    then show "?P (Suc b) (processOptimizedBatches_body e ?tb b t)"
      using P by simp
  qed
  from processOptimizedBatches_loop_rule [of ?P 0 s ?tb e, OF init step]
  show ?thesis unfolding processOptimizedBatches_def by blast
qed
subsection \<open>A whole session\<close>

lemma start_rule:
  assumes "\<not> isRunning s"
    and "P (processOptimizedBatches e (s\<lparr>isRunning := True\<rparr>))"
    and "\<And>t. P t \<Longrightarrow> P (session_of (processRetryQueue e t))"
    and "\<And>t. P t \<Longrightarrow> P (complete e t)"
  shows "P (session_of (start e s))"
proof -
  let ?s1 = "processOptimizedBatches e (s\<lparr>isRunning := True\<rparr>)"
  show ?thesis
  proof (cases "0 < length (retryQueue ?s1)")
    case False
    then show ?thesis using assms(1,2,4) by (simp add: start_def Let_def)
  next
    case True
    have r: "P (session_of (processRetryQueue e ?s1))" using assms(2,3) by blast
    show ?thesis
    proof (cases "processRetryQueue e ?s1")
      case (Returned s2)
      then have "P (complete e s2)" using r assms(4) by simp
      then show ?thesis using assms(1) True Returned by (simp add: start_def Let_def)
    next
      case (TypeError s2)
      then show ?thesis using r assms(1) True by (simp add: start_def Let_def)
    qed
  qed
qed

lemma processResult_admission:
  "retryQueue (processResult r Failure s) =
     (if length (retryQueue s) < 1000
         \<and> int (retryCount (requestQueue s ! r) + 1) \<le> maxRetries (config s)
      then retryQueue s @ [r] else retryQueue s)"
  by (simp add: processResult_def Let_def)

lemma processResult_increment:
  "r < length (requestQueue s) \<Longrightarrow>
     retryCount (requestQueue (processResult r Failure s) ! r) =
       (if length (retryQueue s) < 1000 then retryCount (requestQueue s ! r) + 1
        else retryCount (requestQueue s ! r))"
  by (simp add: processResult_def Let_def)

lemma processResult_no_admission:
  "res \<noteq> Failure \<Longrightarrow> retryQueue (processResult r res s) = retryQueue s
     \<and> requestQueue (processResult r res s) = requestQueue s"
  by (cases res) (simp_all add: processResult_def Let_def)

lemma session_retry_bounded:
  assumes "0 \<le> maxRetries c"
  shows "(\<forall>i<length (requestQueue (session_of (start e (TrafficSession c)))).
            int (retryCount (requestQueue (session_of (start e (TrafficSession c))) ! i))
              \<le> maxRetries c)
         \<and> (\<forall>r m. Bump r m \<in> set (history (session_of (start e (TrafficSession c))))
              \<longrightarrow> int m \<le> maxRetries c)"
proof -
  let ?P = "\<lambda>t. config t = c
      \<and> (\<forall>i<length (requestQueue t). int (retryCount (requestQueue t ! i)) \<le> maxRetries c)
      \<and> (\<forall>r m. Bump r m \<in> set (history t) \<longrightarrow> int m \<le> maxRetries c)"
  let ?s0 = "(TrafficSession c)\<lparr>isRunning := True\<rparr>"
  have "?P (session_of (start e (TrafficSession c)))"
  proof (rule start_rule)
    show "\<not> isRunning (TrafficSession c)" by simp
  next
    have w: "1 \<le> concurrency ?s0" using TrafficSession_concurrency [of c] by simp
    have "retry_bounded {} ?s0" using assms by (simp add: retry_bounded_def)
    then obtain U where "retry_bounded U (processOptimizedBatches e ?s0)"
      using processOptimizedBatches_bounded [OF w] by blast
    moreover have "config (processOptimizedBatches e ?s0) = c"
      by (simp add: processOptimizedBatches_def)
    ultimately show "?P (processOptimizedBatches e ?s0)"
      by (simp add: retry_bounded_def)
  next
    fix t :: session
    assume P: "?P t"
    show "?P (session_of (processRetryQueue e t))"
    proof (rule processRetryQueue_invariant)
      show "?P t" by (rule P)
    next
      fix u :: session and evs
      assume "?P u" and "\<And>ev. ev \<in> set evs \<Longrightarrow> is_sleep ev"
      then show "?P (record_event evs u)" by (fastforce simp add: is_sleep_def)
    next
      fix u :: session and n
      assume "?P u"
      then show "?P (record_event [RetryPass n] u)" by simp
    next
      fix u :: session and p
      assume "?P u"
      then show "?P (interrupt e p u)" by simp
    next
      fix u :: session and rs
      assume u: "?P u"
      obtain evs where evs: "history (snd (settle e Retry rs u)) = history u @ evs"
          "\<forall>ev\<in>set evs. is_sleep ev \<or> (\<exists>r\<in>set rs. \<exists>a. ev = Fetch Retry r a)"
        using settle_events by blast
      have "\<And>r m. Bump r m \<notin> set evs" using evs(2) by (fastforce simp add: is_sleep_def)
      then show "?P (snd (settle e Retry rs u))" using u evs(1) by auto
    next
      fix u :: session and a b
      assume "?P u"
      then show "?P (u\<lparr>stats := (stats u)\<lparr>successful := successful (stats u) + a,
                                     failed := failed (stats u) + b\<rparr>,
               retryQueue := []\<rparr>)" by simp
    qed
  next
    fix t :: session
    assume "?P t"
    then show "?P (complete e t)" by simp
  qed
  then show ?thesis by blast
qed

text \<open>
  C5. A request that failed terminally in the primary pass is pushed on the retry queue
  exactly when the queue holds fewer than 1000 entries and its counter, after the
  increment, is at most \<open>maxRetries\<close>; the counter is incremented only under the first
  condition; a request that succeeded is never pushed. In every session of the
  constructor with a non-negative \<open>maxRetries\<close>, whatever the responses and whenever
  \<open>stop()\<close> is called, no counter is above \<open>maxRetries\<close> at the end, and no increment in
  the history of the session ever set one above it.
\<close>

theorem retry_admission_and_bound:
  "retryQueue (processResult r Failure s) =
     (if length (retryQueue s) < 1000
         \<and> int (retryCount (requestQueue s ! r) + 1) \<le> maxRetries (config s)
      then retryQueue s @ [r] else retryQueue s)
   \<and> (r < length (requestQueue s) \<longrightarrow>
        retryCount (requestQueue (processResult r Failure s) ! r) =
          (if length (retryQueue s) < 1000 then retryCount (requestQueue s ! r) + 1
           else retryCount (requestQueue s ! r)))
   \<and> retryQueue (processResult r (Success n) s) = retryQueue s
   \<and> (0 \<le> maxRetries c \<longrightarrow>
        (\<forall>q\<in>set (requestQueue (session_of (start e (TrafficSession c)))).
            int (retryCount q) \<le> maxRetries c)
        \<and> (\<forall>r m. Bump r m \<in> set (history (session_of (start e (TrafficSession c))))
              \<longrightarrow> int m \<le> maxRetries c))"
proof -
  have a: "retryQueue (processResult r Failure s) =
     (if length (retryQueue s) < 1000
         \<and> int (retryCount (requestQueue s ! r) + 1) \<le> maxRetries (config s)
      then retryQueue s @ [r] else retryQueue s)"
    by (rule processResult_admission)
  have b: "r < length (requestQueue s) \<longrightarrow>
        retryCount (requestQueue (processResult r Failure s) ! r) =
          (if length (retryQueue s) < 1000 then retryCount (requestQueue s ! r) + 1
           else retryCount (requestQueue s ! r))"
    using processResult_increment by blast
  have c: "retryQueue (processResult r (Success n) s) = retryQueue s"
    using processResult_no_admission [of "Success n" r s] by simp
  have d: "0 \<le> maxRetries c \<longrightarrow>
        (\<forall>q\<in>set (requestQueue (session_of (start e (TrafficSession c)))).
            int (retryCount q) \<le> maxRetries c)
        \<and> (\<forall>r m. Bump r m \<in> set (history (session_of (start e (TrafficSession c))))
              \<longrightarrow> int m \<le> maxRetries c)"
  proof
    assume "0 \<le> maxRetries c"
    from session_retry_bounded [OF this, of e]
    show "(\<forall>q\<in>set (requestQueue (session_of (start e (TrafficSession c)))).
            int (retryCount q) \<le> maxRetries c)
        \<and> (\<forall>r m. Bump r m \<in> set (history (session_of (start e (TrafficSession c))))
              \<longrightarrow> int m \<le> maxRetries c)"
      by (auto simp add: in_set_conv_nth)
  qed
  from a b c d show ?thesis by blast
qed

theorem retry_admission_and_bound_witness:
  "retryQueue (processResult 0 Failure counting_first) = [0]
   \<and> 0 < length (requestQueue counting_first)
   \<and> retryCount (requestQueue (processResult 0 Failure counting_first) ! 0) = 1
   \<and> 0 \<le> maxRetries two_requests
   \<and> \<lparr>req_id = 1, retryCount = 1\<rparr>
       \<in> set (requestQueue (session_of (start (constant_env (Http 500)) (TrafficSession two_requests))))
   \<and> int (retryCount \<lparr>req_id = 1, retryCount = 1\<rparr>) \<le> maxRetries two_requests
   \<and> Bump 0 1 \<in> set (history (session_of (start (constant_env (Http 500)) (TrafficSession two_requests))))
   \<and> int 1 \<le> maxRetries two_requests"
proof -
  have m: "maxRetries two_requests = 3" by (simp add: two_requests_def)
  have s: "retryQueue counting_first = []" "config counting_first = two_requests"
      "requestQueue counting_first = [\<lparr>req_id = 1, retryCount = 0\<rparr>, \<lparr>req_id = 2, retryCount = 0\<rparr>]"
    by (simp_all add: counting_first_def two_requests_def upt_rec)
  have q: "requestQueue (session_of (start (constant_env (Http 500)) (TrafficSession two_requests)))
             = [\<lparr>req_id = 1, retryCount = 1\<rparr>, \<lparr>req_id = 2, retryCount = 1\<rparr>]"
    by code_simp
  have h: "Bump 0 1 \<in> set (history (session_of (start (constant_env (Http 500)) (TrafficSession two_requests))))"
    by code_simp
  from retry_admission_and_bound
         [of 0 counting_first "None" two_requests "constant_env (Http 500)"] m s q h
  show ?thesis by simp
qed
subsection \<open>Stopping\<close>

lemma stop_idempotent: "stop (stop s) = stop s"
  by (simp add: stop_def split: option.splits)

lemma stop_aborts:
  "currentBatch s = Some controllers \<Longrightarrow> aborted (stop s) = aborted s @ controllers"
  by (simp add: stop_def)

lemma stop_nothing_held: "currentBatch s = None \<Longrightarrow> aborted (stop s) = aborted s"
  by (simp add: stop_def)

lemma processOptimizedBatches_loop_stopped:
  "\<not> isRunning s \<Longrightarrow> processOptimizedBatches_loop e tb b s = s"
  by (subst processOptimizedBatches_loop.simps) simp

lemma processRetryQueue_stopped:
  assumes "\<not> isRunning s"
  shows "processRetryQueue e s =
           Returned (if retryQueue s = [] then s
                     else (record_event [RetryPass (length (retryQueue s))] s)\<lparr>retryQueue := []\<rparr>)"
  using assms
  by (simp add: processRetryQueue_def Let_def processRetryQueue_loop_stopped record_event_def)

lemma joined_stopped: "stopAt e (Join b) \<Longrightarrow> \<not> isRunning (joined e batch b s)"
  by (simp add: joined_def Let_def case_prod_beta interrupt_isRunning)

lemma processBatch_stopped_at_join:
  assumes "stopAt e (Join b)"
  shows "\<not> isRunning (processBatch e batch b s)
         \<and> aborted (processBatch e batch b s) =
             aborted (snd (launch e b 0 batch s)) @ fst (launch e b 0 batch s)"
  using assms
  by (simp add: processBatch_unfold joined_stopped)
     (simp add: joined_def Let_def case_prod_beta interrupt_def stop_def)

lemma processBatchResults_history:
  "\<exists>evs. history (processBatchResults results s) = history s @ evs
         \<and> (\<forall>ev\<in>set evs. \<exists>r m. ev = Bump r m)"
proof (rule processBatchResults_rule)
  show "\<exists>evs. history s = history s @ evs \<and> (\<forall>ev\<in>set evs. \<exists>r m. ev = Bump r m)"
    by simp
next
  fix r res and t :: session
  assume "\<exists>evs. history t = history s @ evs \<and> (\<forall>ev\<in>set evs. \<exists>r m. ev = Bump r m)"
  then obtain evs where evs: "history t = history s @ evs" "\<forall>ev\<in>set evs. \<exists>r m. ev = Bump r m"
    by blast
  have "\<exists>evs'. history (processResult r res t) = history t @ evs'
              \<and> (\<forall>ev\<in>set evs'. \<exists>r m. ev = Bump r m)"
    by (cases res) (simp_all add: processResult_def Let_def)
  then obtain evs' where evs': "history (processResult r res t) = history t @ evs'"
      "\<forall>ev\<in>set evs'. \<exists>r m. ev = Bump r m"
    by blast
  have "history (processResult r res t) = history s @ (evs @ evs')"
    using evs(1) evs'(1) by simp
  moreover have "\<forall>ev\<in>set (evs @ evs'). \<exists>r m. ev = Bump r m"
    using evs(2) evs'(2) by auto
  ultimately show "\<exists>evs. history (processResult r res t) = history s @ evs
                       \<and> (\<forall>ev\<in>set evs. \<exists>r m. ev = Bump r m)"
    by blast
qed

lemma processBatch_fetches:
  assumes "Fetch p r a \<in> set (history (processBatch e batch b s))"
  shows "Fetch p r a \<in> set (history s) \<or> (p = Primary \<and> r \<in> set batch)"
proof -
  obtain evs1 where e1: "history (joined e batch b s) = history s @ evs1"
      "\<forall>ev\<in>set evs1. is_sleep ev \<or> (\<exists>r\<in>set batch. \<exists>a. ev = Fetch Primary r a)"
    using joined_history by blast
  obtain evs2 where e2:
      "history (processBatchResults (batch_results e batch b s) (joined e batch b s)) =
         history (joined e batch b s) @ evs2"
      "\<forall>ev\<in>set evs2. \<exists>r m. ev = Bump r m"
    using processBatchResults_history by blast
  have "history (processBatch e batch b s) = history s @ evs1 @ evs2"
    using e1(1) e2(1) by (simp add: processBatch_unfold)
  then have "Fetch p r a \<in> set (history s) \<or> Fetch p r a \<in> set evs1 \<or> Fetch p r a \<in> set evs2"
    using assms by auto
  then show ?thesis using e1(2) e2(2) by (fastforce simp add: is_sleep_def)
qed

lemma processOptimizedBatches_body_fetches:
  assumes "Fetch p r a \<in> set (history (processOptimizedBatches_body e tb b s))"
  shows "Fetch p r a \<in> set (history s) \<or> (p = Primary \<and> r < Suc b * nat (concurrency s))"
proof -
  let ?c = "nat (concurrency s)"
  let ?n = "length (requestQueue s)"
  let ?batch = "slice [0..<?n] (b * ?c) (min (b * ?c + ?c) ?n)"
  have batch: "?batch = [b * ?c..<min (b * ?c + ?c) ?n]"
    by (rule slice_upt) simp
  have "Fetch p r a \<in> set (history (processBatch e ?batch b s))"
    using assms
    by (auto simp add: processOptimizedBatches_body_def Let_def adaptiveDelay_def split: if_splits)
  then have "Fetch p r a \<in> set (history s) \<or> (p = Primary \<and> r \<in> set ?batch)"
    by (rule processBatch_fetches)
  then show ?thesis unfolding batch by auto
qed

lemma launch_stopped_at_stagger:
  assumes "enableJitter (config s)" and "stopAt e (Stagger b (j0 + k))" and "k < length batch"
  shows "\<not> isRunning (snd (launch e b j0 batch s))"
  using assms
proof (induction batch arbitrary: j0 k s)
  case Nil
  then show ?case by simp
next
  case (Cons r rs)
  let ?s1 = "interrupt e (Stagger b j0)
               (record_event
                  [Sleep StaggerWait
                     (js_times
                        (js_div (real_of_int (delay (config s))) (real_of_int (concurrency s)))
                        (jitterFactor (mathRandom e (StaggerDraw b j0))))] s)"
  show ?case
  proof (cases "isRunning s")
    case False
    then show ?thesis by simp
  next
    case True
    have "\<not> isRunning (snd (launch e b (Suc j0) rs ?s1))"
    proof (cases k)
      case 0
      then have "\<not> isRunning ?s1" using Cons.prems(2) by (simp add: interrupt_isRunning)
      then show ?thesis by (rule launch_stays_stopped)
    next
      case (Suc k')
      then show ?thesis using Cons.prems by (intro Cons.IH [where k = k']) simp_all
    qed
    then show ?thesis using True Cons.prems(1) by (simp add: Let_def case_prod_beta)
  qed
qed

lemma joined_stopped_at_stagger:
  assumes "enableJitter (config s)" and "stopAt e (Stagger b j)" and "j < length batch"
  shows "\<not> isRunning (joined e batch b s)"
  using launch_stopped_at_stagger [of s e b 0 j batch] assms
  by (simp add: joined_def Let_def case_prod_beta interrupt_isRunning)

lemma processOptimizedBatches_body_stopped:
  assumes "stopAt e (Join b)
           \<or> (stopAt e (Gap b) \<and> Suc b < tb)
           \<or> (enableJitter (config s) \<and> stopAt e (Stagger b j) \<and> j < nat (concurrency s)
                \<and> b * nat (concurrency s) + j < length (requestQueue s))"
  shows "\<not> isRunning (processOptimizedBatches_body e tb b s)"
proof -
  let ?c = "nat (concurrency s)"
  let ?n = "length (requestQueue s)"
  let ?batch = "slice [0..<?n] (b * ?c) (min (b * ?c + ?c) ?n)"
  have batch: "?batch = [b * ?c..<min (b * ?c + ?c) ?n]" by (rule slice_upt) simp
  consider (join) "stopAt e (Join b)" | (gap) "stopAt e (Gap b)" "Suc b < tb"
    | (stagger) "enableJitter (config s)" "stopAt e (Stagger b j)" "j < ?c" "b * ?c + j < ?n"
    using assms by blast
  then show ?thesis
  proof cases
    case join
    then have "\<not> isRunning (processBatch e ?batch b s)"
      using processBatch_stopped_at_join [of e b] by blast
    then show ?thesis by (simp add: processOptimizedBatches_body_def Let_def)
  next
    case gap
    have "\<not> isRunning (adaptiveDelay e b (processBatch e ?batch b s))"
      using gap(1) by (simp add: adaptiveDelay_def interrupt_isRunning)
    then show ?thesis using gap(2) by (simp add: processOptimizedBatches_body_def Let_def)
  next
    case stagger
    have "j < length ?batch" unfolding batch using stagger(3,4) by simp
    then have "\<not> isRunning (joined e ?batch b s)"
      using stagger(1,2) by (intro joined_stopped_at_stagger)
    then have "\<not> isRunning (processBatch e ?batch b s)" by (simp add: processBatch_unfold)
    then show ?thesis by (simp add: processOptimizedBatches_body_def Let_def)
  qed
qed

lemma stopped_primary_pass:
  assumes stop: "stopAt e (Join b)
           \<or> (stopAt e (Gap b) \<and> Suc b * nat (concurrency s) < length (requestQueue s))
           \<or> (enableJitter (config s) \<and> stopAt e (Stagger b j) \<and> j < nat (concurrency s)
                \<and> b * nat (concurrency s) + j < length (requestQueue s))"
    and c: "1 \<le> concurrency s"
    and exists: "b * nat (concurrency s) < length (requestQueue s)"
    and clean: "\<And>p r a. Fetch p r a \<notin> set (history s)"
  shows "\<not> isRunning (processOptimizedBatches e s)
         \<and> (\<forall>p r a. Fetch p r a \<in> set (history (processOptimizedBatches e s))
               \<longrightarrow> p = Primary \<and> r < Suc b * nat (concurrency s))"
proof -
  let ?c = "nat (concurrency s)"
  let ?n = "length (requestQueue s)"
  let ?tb = "ceil_div ?n (concurrency s)"
  let ?P = "\<lambda>b' t. config t = config s \<and> concurrency t = concurrency s
      \<and> length (requestQueue t) = ?n \<and> (isRunning t \<longrightarrow> b' \<le> b)
      \<and> (\<forall>p r a. Fetch p r a \<in> set (history t) \<longrightarrow> p = Primary \<and> r < Suc b * ?c)"
  have stop': "stopAt e (Join b)
           \<or> (stopAt e (Gap b) \<and> Suc b < ?tb)
           \<or> (enableJitter (config s) \<and> stopAt e (Stagger b j) \<and> j < ?c \<and> b * ?c + j < ?n)"
    using stop c by (simp add: ceil_div_less_iff)
  have init: "?P 0 s" using clean by simp
  have step: "\<And>b' t. b' < ?tb \<Longrightarrow> isRunning t \<Longrightarrow> ?P b' t \<Longrightarrow>
                ?P (Suc b') (processOptimizedBatches_body e ?tb b' t)"
  proof -
    fix b' and t :: session
    assume run: "isRunning t" and P: "?P b' t"
    have le: "b' \<le> b" using run P by blast
    have "\<not> isRunning (processOptimizedBatches_body e ?tb b t)"
      using stop' P by (intro processOptimizedBatches_body_stopped [where j = j]) simp
    then have r: "isRunning (processOptimizedBatches_body e ?tb b' t) \<longrightarrow> Suc b' \<le> b"
      using le by (cases "b' = b") auto
    have f: "\<forall>p r a. Fetch p r a \<in> set (history (processOptimizedBatches_body e ?tb b' t))
               \<longrightarrow> p = Primary \<and> r < Suc b * ?c"
    proof (intro allI impI)
      fix p r a
      assume "Fetch p r a \<in> set (history (processOptimizedBatches_body e ?tb b' t))"
      then have d: "Fetch p r a \<in> set (history t) \<or> (p = Primary \<and> r < Suc b' * nat (concurrency t))"
        by (rule processOptimizedBatches_body_fetches)
      have mono: "Suc b' * ?c \<le> Suc b * ?c" using le by (intro mult_le_mono1) simp
      show "p = Primary \<and> r < Suc b * ?c"
      proof (cases "Fetch p r a \<in> set (history t)")
        case True
        then show ?thesis using P by blast
      next
        case False
        then have "p = Primary" and "r < Suc b' * ?c" using d P by auto
        then show ?thesis using mono by (meson less_le_trans)
      qed
    qed
    show "?P (Suc b') (processOptimizedBatches_body e ?tb b' t)"
      using P r f by simp
  qed
  from processOptimizedBatches_loop_rule [of ?P 0 s ?tb e, OF init step]
  obtain b' where b': "?P b' (processOptimizedBatches_loop e ?tb 0 s)"
      "b' < ?tb \<longrightarrow> \<not> isRunning (processOptimizedBatches_loop e ?tb 0 s)"
    by blast
  have "b < ?tb" using exists c by (simp add: ceil_div_less_iff)
  then have "\<not> isRunning (processOptimizedBatches_loop e ?tb 0 s)"
    using b' by (cases "b' < ?tb") auto
  then show ?thesis using b'(1) by (simp add: processOptimizedBatches_def)
qed
lemma stopped_session_fetches:
  assumes stop: "stopAt e (Join b)
           \<or> (stopAt e (Gap b) \<and> Suc b * nat (concurrency (TrafficSession c)) < nat (impressions c))
           \<or> (enableJitter c \<and> stopAt e (Stagger b j) \<and> j < nat (concurrency (TrafficSession c))
                \<and> b * nat (concurrency (TrafficSession c)) + j < nat (impressions c))"
    and exists: "b * nat (concurrency (TrafficSession c)) < nat (impressions c)"
    and f: "Fetch p r a \<in> set (history (session_of (start e (TrafficSession c))))"
  shows "p = Primary \<and> r < Suc b * nat (concurrency (TrafficSession c))"
proof -
  let ?s0 = "(TrafficSession c)\<lparr>isRunning := True\<rparr>"
  let ?s1 = "processOptimizedBatches e ?s0"
  have w: "1 \<le> concurrency ?s0" using TrafficSession_concurrency [of c] by simp
  have ex: "b * nat (concurrency ?s0) < length (requestQueue ?s0)" using exists by simp
  have st: "stopAt e (Join b)
           \<or> (stopAt e (Gap b) \<and> Suc b * nat (concurrency ?s0) < length (requestQueue ?s0))
           \<or> (enableJitter (config ?s0) \<and> stopAt e (Stagger b j) \<and> j < nat (concurrency ?s0)
                \<and> b * nat (concurrency ?s0) + j < length (requestQueue ?s0))"
    using stop by simp
  have p1: "\<not> isRunning ?s1
         \<and> (\<forall>p r a. Fetch p r a \<in> set (history ?s1)
               \<longrightarrow> p = Primary \<and> r < Suc b * nat (concurrency ?s0))"
    using st w ex by (rule stopped_primary_pass) simp
  have "set (history (session_of (start e (TrafficSession c)))) \<subseteq>
          set (history ?s1) \<union> {RetryPass (length (retryQueue ?s1))}"
    using p1 by (auto simp add: start_def Let_def processRetryQueue_stopped)
  then have "Fetch p r a \<in> set (history ?s1)" using f by auto
  moreover have "concurrency ?s0 = concurrency (TrafficSession c)" by simp
  ultimately show ?thesis using p1 by metis
qed

lemma processRetryQueue_aborts_nothing:
  assumes "currentBatch s = None"
  shows "aborted (session_of (processRetryQueue e s)) = aborted s"
proof -
  let ?P = "\<lambda>t. currentBatch t = None \<and> aborted t = aborted s"
  have "?P (session_of (processRetryQueue e s))"
  proof (rule processRetryQueue_invariant)
    show "?P s" using assms by simp
  next
    fix t :: session and p
    assume "?P t"
    then show "?P (interrupt e p t)" by (simp add: interrupt_def stop_def)
  qed simp_all
  then show ?thesis by simp
qed

text \<open>
  What \<open>stop()\<close> achieves. It clears the running flag, aborts every controller
  held in \<open>currentBatch\<close> and clears that field, and a second call changes nothing. A
  \<open>stop()\<close> during the join of a primary batch aborts exactly the requests that batch
  fired. Once the flag is cleared the primary loop dispatches nothing more, and
  \<open>processRetryQueue\<close>, which \<open>start\<close> still calls when the retry queue is not empty,
  dispatches nothing either: it only notes its entry and clears the queue. The retry
  pass itself never aborts a controller. So in a session stopped during batch \<open>b\<close> of
  the primary pass (at its join, during the stagger wait after one of its requests, or
  during the adaptive wait that follows it), every \<open>fetch\<close> ever issued belongs to the
  primary pass and to a request of the batches up to \<open>b\<close>.
\<close>

lemma stop_guarantees:
  "\<not> isRunning (stop s)
   \<and> stop (stop s) = stop s
   \<and> (currentBatch s = Some controllers
        \<longrightarrow> aborted (stop s) = aborted s @ controllers \<and> currentBatch (stop s) = None)
   \<and> (currentBatch t = None \<and> stopAt e (Join b)
        \<longrightarrow> aborted (processBatch e batch b t) = aborted t @ fst (launch e b 0 batch t)
            \<and> \<not> isRunning (processBatch e batch b t))
   \<and> (\<not> isRunning u \<longrightarrow> processOptimizedBatches_loop e tb b' u = u)
   \<and> (\<not> isRunning u \<longrightarrow>
        processRetryQueue e u =
          Returned (if retryQueue u = [] then u
                    else (record_event [RetryPass (length (retryQueue u))] u)\<lparr>retryQueue := []\<rparr>))
   \<and> (\<not> isRunning u \<longrightarrow> processRetryQueue_loop e rc rb i cnt u = Returned (cnt, u))
   \<and> (currentBatch u = None \<longrightarrow> aborted (session_of (processRetryQueue e u)) = aborted u)
   \<and> ((stopAt e (Join b)
         \<or> (stopAt e (Gap b) \<and> Suc b * nat (concurrency (TrafficSession c)) < nat (impressions c))
         \<or> (enableJitter c \<and> stopAt e (Stagger b j) \<and> j < nat (concurrency (TrafficSession c))
              \<and> b * nat (concurrency (TrafficSession c)) + j < nat (impressions c)))
        \<and> b * nat (concurrency (TrafficSession c)) < nat (impressions c)
        \<longrightarrow> (\<forall>p r a. Fetch p r a \<in> set (history (session_of (start e (TrafficSession c))))
               \<longrightarrow> p = Primary \<and> r < Suc b * nat (concurrency (TrafficSession c))))"
proof -
  have a: "\<not> isRunning (stop s)" by simp
  have b: "stop (stop s) = stop s" by (rule stop_idempotent)
  have c: "currentBatch s = Some controllers
        \<longrightarrow> aborted (stop s) = aborted s @ controllers \<and> currentBatch (stop s) = None"
    by (simp add: stop_aborts)
  have d: "currentBatch t = None \<and> stopAt e (Join b)
        \<longrightarrow> aborted (processBatch e batch b t) = aborted t @ fst (launch e b 0 batch t)
            \<and> \<not> isRunning (processBatch e batch b t)"
    using processBatch_stopped_at_join [of e b batch t] launch_no_controllers [of t e b 0 batch]
    by simp
  have f: "\<not> isRunning u \<longrightarrow> processOptimizedBatches_loop e tb b' u = u"
    by (simp add: processOptimizedBatches_loop_stopped)
  have g: "\<not> isRunning u \<longrightarrow>
        processRetryQueue e u =
          Returned (if retryQueue u = [] then u
                    else (record_event [RetryPass (length (retryQueue u))] u)\<lparr>retryQueue := []\<rparr>)"
    using processRetryQueue_stopped by blast
  have g1: "\<not> isRunning u \<longrightarrow> processRetryQueue_loop e rc rb i cnt u = Returned (cnt, u)"
    by (simp add: processRetryQueue_loop_stopped)
  have g2: "currentBatch u = None \<longrightarrow> aborted (session_of (processRetryQueue e u)) = aborted u"
    by (simp add: processRetryQueue_aborts_nothing)
  have h: "(stopAt e (Join b)
         \<or> (stopAt e (Gap b) \<and> Suc b * nat (concurrency (TrafficSession c)) < nat (impressions c))
         \<or> (enableJitter c \<and> stopAt e (Stagger b j) \<and> j < nat (concurrency (TrafficSession c))
              \<and> b * nat (concurrency (TrafficSession c)) + j < nat (impressions c)))
        \<and> b * nat (concurrency (TrafficSession c)) < nat (impressions c)
        \<longrightarrow> (\<forall>p r a. Fetch p r a \<in> set (history (session_of (start e (TrafficSession c))))
               \<longrightarrow> p = Primary \<and> r < Suc b * nat (concurrency (TrafficSession c)))"
  proof (intro impI allI)
    fix p r a
    assume s: "(stopAt e (Join b)
         \<or> (stopAt e (Gap b) \<and> Suc b * nat (concurrency (TrafficSession c)) < nat (impressions c))
         \<or> (enableJitter c \<and> stopAt e (Stagger b j) \<and> j < nat (concurrency (TrafficSession c))
              \<and> b * nat (concurrency (TrafficSession c)) + j < nat (impressions c)))
        \<and> b * nat (concurrency (TrafficSession c)) < nat (impressions c)"
      and m: "Fetch p r a \<in> set (history (session_of (start e (TrafficSession c))))"
    from s have s1: "stopAt e (Join b)
         \<or> (stopAt e (Gap b) \<and> Suc b * nat (concurrency (TrafficSession c)) < nat (impressions c))
         \<or> (enableJitter c \<and> stopAt e (Stagger b j) \<and> j < nat (concurrency (TrafficSession c))
              \<and> b * nat (concurrency (TrafficSession c)) + j < nat (impressions c))"
      and s2: "b * nat (concurrency (TrafficSession c)) < nat (impressions c)"
      by blast+
    show "p = Primary \<and> r < Suc b * nat (concurrency (TrafficSession c))"
      using s1 s2 m by (rule stopped_session_fetches)
  qed
  from a b c d f g g1 g2 h show ?thesis by blast
qed

lemma stop_guarantees_example:
  "\<not> isRunning (stop awaiting_first)
   \<and> currentBatch awaiting_first = Some [0]
   \<and> aborted (stop awaiting_first) = [0]
   \<and> currentBatch counting_first = None
   \<and> stopAt (stop_at (Join 0) (constant_env (Http 500))) (Join 0)
   \<and> aborted (processBatch (stop_at (Join 0) (constant_env (Http 500))) [0] 0 counting_first) = [0]
   \<and> processOptimizedBatches_loop (stop_at (Join 0) (constant_env (Http 500))) 2 1
        (stop awaiting_first) = stop awaiting_first
   \<and> processRetryQueue_loop (stop_at (Join 0) (constant_env (Http 500))) 1 2 0 (0, 0)
        (stop awaiting_first) = Returned ((0, 0), stop awaiting_first)
   \<and> currentBatch (stop awaiting_first) = None
   \<and> aborted (session_of (processRetryQueue (stop_at (Join 0) (constant_env (Http 500)))
        (stop awaiting_first))) = [0]
   \<and> 0 * nat (concurrency (TrafficSession two_requests)) < nat (impressions two_requests)
   \<and> Fetch Primary 1 0 \<notin> set (history (session_of
        (start (stop_at (Join 0) (constant_env (Http 500))) (TrafficSession two_requests))))
   \<and> Fetch Retry 0 0 \<notin> set (history (session_of
        (start (stop_at (Join 0) (constant_env (Http 500))) (TrafficSession two_requests))))"
proof -
  let ?e = "stop_at (Join 0) (constant_env (Http 500))"
  have cb: "currentBatch awaiting_first = Some [0]" "aborted awaiting_first = []"
      "currentBatch counting_first = None" "aborted counting_first = []"
    by (simp_all add: awaiting_first_def counting_first_def)
  have st: "stopAt ?e (Join 0)" by (simp add: stop_at_def)
  have fired: "fst (launch ?e 0 0 [0] counting_first) = [0]"
    by (simp add: counting_first_def two_requests_def Let_def case_prod_beta)
  have w: "concurrency (TrafficSession two_requests) = 1" "impressions two_requests = 2"
    by (simp_all add: TrafficSession_def adjustConcurrency_def generateRequestQueue_def
        two_requests_def Let_def baseConcurrency_def)
  note t = stop_guarantees [of awaiting_first "[0]" counting_first ?e 0 "[0]"
                             "stop awaiting_first" 2 1 1 2 0 "(0, 0)" two_requests 0]
  have nr: "\<not> isRunning (stop awaiting_first)" by simp
  from t cb st w have
    h: "\<forall>p r a. Fetch p r a \<in> set (history (session_of (start ?e (TrafficSession two_requests))))
               \<longrightarrow> p = Primary \<and> r < Suc 0 * nat 1"
    by simp
  have n1: "Fetch Primary 1 0 \<notin> set (history (session_of (start ?e (TrafficSession two_requests))))"
    using h by fastforce
  have n2: "Fetch Retry 0 0 \<notin> set (history (session_of (start ?e (TrafficSession two_requests))))"
    using h by fastforce
  have ab: "aborted (stop awaiting_first) = [0]" using cb by (simp add: stop_aborts)
  from t cb st w fired nr n1 n2 ab show ?thesis by simp
qed

text \<open>
  C9. A \<open>stop()\<close> that arrives while \<open>processBatch\<close> is still firing the requests of a
  batch aborts none of them. \<open>processBatch\<close> collects the controllers in a local array
  and stores it in \<open>currentBatch\<close> only after the loop that fires the requests; with
  jitter enabled that loop awaits a delay after each request, and a \<open>stop()\<close> during
  such a wait finds \<open>currentBatch\<close> empty. In the session below two requests share the
  first batch, every \<open>fetch\<close> is answered with HTTP 200, and the host calls \<open>stop()\<close>
  during the wait that follows the firing of the first request: the first request has
  been fired and the second never is, the running flag is cleared, no controller is
  aborted, then or later, and the request in flight runs to its end and is counted as a
  success. A \<open>stop()\<close> that arrives during the join of the same batch aborts the
  controllers of both requests.
\<close>

theorem stop_during_launch_aborts_nothing:
  "concurrency (TrafficSession staggered_pair) = 2
   \<and> stopAt (stop_at (Stagger 0 0) (constant_env (Http 200))) (Stagger 0 0)
   \<and> fst (launch (stop_at (Stagger 0 0) (constant_env (Http 200))) 0 0 [0, 1]
            ((TrafficSession staggered_pair)\<lparr>isRunning := True\<rparr>)) = [0]
   \<and> \<not> isRunning (snd (launch (stop_at (Stagger 0 0) (constant_env (Http 200))) 0 0 [0, 1]
                         ((TrafficSession staggered_pair)\<lparr>isRunning := True\<rparr>)))
   \<and> aborted (snd (launch (stop_at (Stagger 0 0) (constant_env (Http 200))) 0 0 [0, 1]
                     ((TrafficSession staggered_pair)\<lparr>isRunning := True\<rparr>))) = []
   \<and> \<not> isRunning (session_of
          (start (stop_at (Stagger 0 0) (constant_env (Http 200))) (TrafficSession staggered_pair)))
   \<and> aborted (session_of
          (start (stop_at (Stagger 0 0) (constant_env (Http 200))) (TrafficSession staggered_pair)))
       = []
   \<and> Fetch Primary 0 0 \<in> set (history (session_of
          (start (stop_at (Stagger 0 0) (constant_env (Http 200))) (TrafficSession staggered_pair))))
   \<and> Fetch Primary 1 0 \<notin> set (history (session_of
          (start (stop_at (Stagger 0 0) (constant_env (Http 200))) (TrafficSession staggered_pair))))
   \<and> sent (stats (session_of
          (start (stop_at (Stagger 0 0) (constant_env (Http 200))) (TrafficSession staggered_pair))))
       = 1
   \<and> successful (stats (session_of
          (start (stop_at (Stagger 0 0) (constant_env (Http 200))) (TrafficSession staggered_pair))))
       = 1
   \<and> failed (stats (session_of
          (start (stop_at (Stagger 0 0) (constant_env (Http 200))) (TrafficSession staggered_pair))))
       = 0
   \<and> aborted (session_of
          (start (stop_at (Join 0) (constant_env (Http 200))) (TrafficSession staggered_pair)))
       = [0, 1]"
  by code_simp

subsection \<open>A session of requests that all fail\<close>

lemma executeRequest_loop_three_failures:
  assumes "maxRetries c = 3" and "\<And>a. classify (fetch e p r a) = Thrown"
  shows "executeRequest_loop e c p r 0 =
           (Failure,
            [Fetch p r 0,
             Sleep Backoff (backoffDelay 1 (mathRandom e (BackoffDraw p r 1))),
             Fetch p r 1,
             Sleep Backoff (backoffDelay 2 (mathRandom e (BackoffDraw p r 2))),
             Fetch p r 2])"
proof -
  have l2: "executeRequest_loop e c p r 2 = (Failure, [Fetch p r 2])"
    using assms by (subst executeRequest_loop.simps) simp
  have l1: "executeRequest_loop e c p r 1 =
              (Failure,
               [Fetch p r 1,
                Sleep Backoff (backoffDelay 2 (mathRandom e (BackoffDraw p r 2))),
                Fetch p r 2])"
    using assms l2 by (subst executeRequest_loop.simps) (simp add: numeral_2_eq_2)
  show ?thesis
    using assms l1 by (subst executeRequest_loop.simps) simp
qed

lemma all_failed_results:
  assumes "retryQueue s = [0..<k]" and "k \<le> k'" and "k' \<le> length (requestQueue s)"
    and "k' \<le> 1000" and "1 \<le> maxRetries (config s)"
    and "\<forall>i<length (requestQueue s). retryCount (requestQueue s ! i) = (if i < k then 1 else 0)"
  shows "retryQueue (processBatchResults (map (\<lambda>r. (r, Failure)) [k..<k']) s) = [0..<k']
         \<and> (\<forall>i<length (requestQueue s).
               retryCount (requestQueue (processBatchResults (map (\<lambda>r. (r, Failure)) [k..<k']) s) ! i)
                 = (if i < k' then 1 else 0))"
  using assms
proof (induction "k' - k" arbitrary: k s)
  case 0
  then show ?case by simp
next
  case (Suc d)
  have lt: "k < k'" using Suc.hyps(2) by simp
  let ?s' = "processResult k Failure s"
  have kq: "k < length (requestQueue s)" using lt Suc.prems(3) by simp
  have z: "retryCount (requestQueue s ! k) = 0" using Suc.prems(6) kq by simp
  have room: "length (retryQueue s) < 1000" using Suc.prems(1,4) lt by simp
  have q': "retryQueue ?s' = [0..<Suc k]"
    using Suc.prems(1,5) z room by (simp add: processResult_def Let_def)
  have r': "requestQueue ?s' = (requestQueue s)[k := (requestQueue s ! k)\<lparr>retryCount := 1\<rparr>]"
    using z room by (simp add: processResult_def Let_def)
  have c': "\<forall>i<length (requestQueue ?s').
              retryCount (requestQueue ?s' ! i) = (if i < Suc k then 1 else 0)"
    unfolding r' using Suc.prems(6) kq by (auto simp add: nth_list_update)
  have IH: "retryQueue (processBatchResults (map (\<lambda>r. (r, Failure)) [Suc k..<k']) ?s') = [0..<k']
         \<and> (\<forall>i<length (requestQueue ?s').
               retryCount (requestQueue (processBatchResults (map (\<lambda>r. (r, Failure)) [Suc k..<k']) ?s') ! i)
                 = (if i < k' then 1 else 0))"
    using Suc.hyps(2) q' lt Suc.prems(3,4,5) c' by (intro Suc.hyps(1)) simp_all
  have "[k..<k'] = k # [Suc k..<k']" using lt by (simp add: upt_conv_Cons)
  then show ?case using IH by simp
qed

lemma all_failed_primary_pass:
  assumes quiet: "\<And>pt. \<not> stopAt e pt" and run: "isRunning s"
    and mr: "1 \<le> maxRetries (config s)" and c: "1 \<le> concurrency s"
    and small: "length (requestQueue s) \<le> 1000" and empty: "retryQueue s = []"
    and fresh: "\<forall>i<length (requestQueue s). retryCount (requestQueue s ! i) = 0"
    and fail: "\<And>r. fst (executeRequest_loop e (config s) Primary r 0) = Failure"
  shows "isRunning (processOptimizedBatches e s)
         \<and> config (processOptimizedBatches e s) = config s
         \<and> retryQueue (processOptimizedBatches e s) = [0..<length (requestQueue s)]
         \<and> (\<forall>i<length (requestQueue s).
               retryCount (requestQueue (processOptimizedBatches e s) ! i) = 1)"
proof -
  let ?c = "nat (concurrency s)"
  let ?n = "length (requestQueue s)"
  let ?tb = "ceil_div ?n (concurrency s)"
  let ?P = "\<lambda>b t. isRunning t \<and> config t = config s \<and> concurrency t = concurrency s
             \<and> length (requestQueue t) = ?n
             \<and> retryQueue t = [0..<min (b * ?c) ?n]
             \<and> (\<forall>i<?n. retryCount (requestQueue t ! i) = (if i < min (b * ?c) ?n then 1 else 0))"
  have init: "?P 0 s" using run empty fresh by simp
  have step: "\<And>b t. b < ?tb \<Longrightarrow> isRunning t \<Longrightarrow> ?P b t \<Longrightarrow>
                ?P (Suc b) (processOptimizedBatches_body e ?tb b t)"
  proof -
    fix b and t :: session
    assume b: "b < ?tb" and P: "?P b t"
    have lt: "b * ?c < ?n" using b c by (simp add: ceil_div_less_iff)
    let ?k = "b * ?c"
    let ?k' = "min (b * ?c + ?c) ?n"
    let ?batch = "slice [0..<?n] ?k ?k'"
    let ?j = "joined e ?batch b t"
    have batch: "?batch = [?k..<?k']" by (rule slice_upt) simp
    have res: "batch_results e ?batch b t = map (\<lambda>r. (r, Failure)) [?k..<?k']"
      using batch_results_quiet [OF quiet, of t ?batch b] P fail by (simp add: batch)
    have mn: "min ?k ?n = ?k" using lt by simp
    have af: "retryQueue (processBatchResults (map (\<lambda>r. (r, Failure)) [?k..<?k']) ?j) = [0..<?k']
         \<and> (\<forall>i<length (requestQueue ?j).
               retryCount (requestQueue (processBatchResults (map (\<lambda>r. (r, Failure)) [?k..<?k']) ?j) ! i)
                 = (if i < ?k' then 1 else 0))"
      using P mn lt small mr c by (intro all_failed_results) simp_all
    have pb: "isRunning (processBatch e ?batch b t)"
      using processBatch_quiet [OF quiet, of t ?batch b] P mr by simp
    have k': "min (Suc b * ?c) ?n = ?k'" by (simp add: add.commute)
    have "retryQueue (processBatch e ?batch b t) = [0..<?k']
          \<and> (\<forall>i<?n. retryCount (requestQueue (processBatch e ?batch b t) ! i)
                        = (if i < ?k' then 1 else 0))"
      using af P res by (simp add: processBatch_unfold)
    then show "?P (Suc b) (processOptimizedBatches_body e ?tb b t)"
      using P pb k' adaptiveDelay_quiet [OF quiet]
      by (simp add: processOptimizedBatches_body_def Let_def)
  qed
  from processOptimizedBatches_loop_rule [of ?P 0 s ?tb e, OF init step]
  obtain b' where b': "?P b' (processOptimizedBatches_loop e ?tb 0 s)"
      "b' < ?tb \<longrightarrow> \<not> isRunning (processOptimizedBatches_loop e ?tb 0 s)"
    by blast
  then have "\<not> b' < ?tb" by blast
  then have "\<not> b' * ?c < ?n" using c by (simp add: ceil_div_less_iff)
  then have "min (b' * ?c) ?n = ?n" by simp
  then show ?thesis using b'(1) by (simp add: processOptimizedBatches_def)
qed

lemma countRetryResults_defined:
  "(\<And>r res. (r, res) \<in> set results \<Longrightarrow> res \<noteq> Undefined) \<Longrightarrow>
     \<exists>cnt'. countRetryResults results cnt = Some cnt'"
proof (induction results arbitrary: cnt)
  case Nil
  then show ?case by simp
next
  case (Cons x results)
  obtain r res where x: "x = (r, res)" by (cases x)
  obtain a b where cnt: "cnt = (a, b)" by (cases cnt)
  have d: "res \<noteq> Undefined" using Cons.prems [of r res] x by simp
  have rest: "\<And>cnt. \<exists>cnt'. countRetryResults results cnt = Some cnt'"
    using Cons.prems by (intro Cons.IH) auto
  show ?case using d x cnt rest by (cases res) simp_all
qed

lemma processRetryQueue_loop_keeps_history:
  assumes "ev \<in> set (history s)"
  shows "ev \<in> set (history (loop_session (processRetryQueue_loop e rc rb i cnt s)))"
proof -
  have "case processRetryQueue_loop e rc rb i cnt s of
           Returned (c, s') \<Rightarrow> ev \<in> set (history s') | TypeError (c, s') \<Rightarrow> ev \<in> set (history s')"
  proof (rule processRetryQueue_loop_invariant)
    show "ev \<in> set (history s)" by (rule assms)
  next
    fix t :: session and evs :: "event list"
    assume "ev \<in> set (history t)"
    then show "ev \<in> set (history (record_event evs t))" by simp
  next
    fix t :: session and p
    assume "ev \<in> set (history t)"
    then show "ev \<in> set (history (interrupt e p t))" by simp
  next
    fix t :: session and rs
    assume "ev \<in> set (history t)"
    then show "ev \<in> set (history (snd (settle e Retry rs t)))" by (simp add: settle_history)
  qed
  then show ?thesis
    by (cases "processRetryQueue_loop e rc rb i cnt s") (auto split: prod.splits)
qed

lemma quiet_retry_loop_fetches:
  assumes "\<And>pt. \<not> stopAt e pt" and "isRunning s" and "1 \<le> rc" and "1 \<le> maxRetries (config s)"
    and "rb = ceil_div (length (retryQueue s)) (int rc)"
    and "r \<in> set (drop (i * rc) (retryQueue s))"
    and "ev \<in> set (snd (executeRequest_loop e (config s) Retry r 0))"
  shows "ev \<in> set (history (loop_session (processRetryQueue_loop e rc rb i cnt s)))"
  using assms
proof (induction e rc rb i cnt s rule: processRetryQueue_loop.induct)
  case (1 e rc rb i cnt s)
  have quiet: "\<And>pt. \<not> stopAt e pt" using "1.prems"(1) .
  have "i * rc < length (retryQueue s)" using "1.prems"(6) by (cases "i * rc < length (retryQueue s)") auto
  then have i: "i < rb" using "1.prems"(3,5) by (simp add: ceil_div_less_iff)
  define startIdx where "startIdx = i * rc"
  define endIdx where "endIdx = min (startIdx + rc) (length (retryQueue s))"
  define retryBatch where "retryBatch = slice (retryQueue s) startIdx endIdx"
  define s1 where "s1 = record_event
                     (map (\<lambda>index. Sleep RetryStagger (Fin (real index * 100)))
                        [0..<length retryBatch]) s"
  define s2 where "s2 = interrupt e (RetryJoin i) s1"
  define results where "results = fst (settle e Retry retryBatch s2)"
  define s3 where "s3 = snd (settle e Retry retryBatch s2)"
  define s4 where "s4 = (if int i < int rb - 1
                          then interrupt e (RetryGapPoint i)
                                 (record_event [Sleep RetryGap (Fin 500)] s3)
                          else s3)"
  have s2: "s2 = s1" unfolding s2_def using quiet by (simp add: interrupt_quiet)
  have conf: "config s2 = config s" "config s4 = config s" "retryQueue s4 = retryQueue s"
      "isRunning s4"
    using "1.prems"(2) quiet by (simp_all add: s4_def s3_def s2 s1_def interrupt_quiet)
  have chunk: "retryBatch = take rc (drop (i * rc) (retryQueue s))"
    by (auto simp add: retryBatch_def slice_def endIdx_def startIdx_def min_def)
  have split: "drop (i * rc) (retryQueue s) = retryBatch @ drop (Suc i * rc) (retryQueue s)"
  proof -
    have "drop (Suc i * rc) (retryQueue s) = drop rc (drop (i * rc) (retryQueue s))"
      by (simp add: add.commute)
    then show ?thesis unfolding chunk by (simp only: append_take_drop_id)
  qed
  have defined: "\<And>r res. (r, res) \<in> set results \<Longrightarrow> res \<noteq> Undefined"
    using executeRequest_loop_defined [of 0 "config s" e Retry] "1.prems"(4) conf(1)
    by (auto simp add: results_def settle_results)
  obtain cnt' where cnt': "countRetryResults results cnt = Some cnt'"
    using countRetryResults_defined [of results cnt] defined by blast
  have eq: "processRetryQueue_loop e rc rb i cnt s =
              processRetryQueue_loop e rc rb (Suc i) cnt' s4"
    using i "1.prems"(2) cnt'
    by (subst processRetryQueue_loop.simps)
       (simp add: Let_def case_prod_beta startIdx_def endIdx_def retryBatch_def s1_def
          s2_def results_def s3_def s4_def)
  show ?case
  proof (cases "r \<in> set retryBatch")
    case True
    have "history s3 = history s2 @ concat (map (\<lambda>r. snd (executeRequest_loop e (config s2) Retry r 0)) retryBatch)"
      unfolding s3_def by (rule settle_history)
    then have "ev \<in> set (history s3)" using True "1.prems"(7) conf(1) by auto
    then have "ev \<in> set (history s4)" by (simp add: s4_def)
    then show ?thesis unfolding eq by (rule processRetryQueue_loop_keeps_history)
  next
    case False
    then have later: "r \<in> set (drop (Suc i * rc) (retryQueue s4))"
      using "1.prems"(6) split conf(3) by auto
    have "ev \<in> set (history (loop_session (processRetryQueue_loop e rc rb (Suc i) cnt' s4)))"
      using i "1.prems"(2) cnt' quiet conf "1.prems"(3,4,5,7) later
      by (intro "1.IH" [OF _ _ startIdx_def endIdx_def retryBatch_def s1_def s2_def _ _ _ s4_def])
         (simp_all add: results_def s3_def prod_eq_iff)
    then show ?thesis unfolding eq .
  qed
qed
lemma quiet_retry_pass_fetches:
  assumes quiet: "\<And>pt. \<not> stopAt e pt" and run: "isRunning s" and mr: "1 \<le> maxRetries (config s)"
    and r: "r \<in> set (retryQueue s)"
    and ev: "ev \<in> set (snd (executeRequest_loop e (config s) Retry r 0))"
  shows "ev \<in> set (history (session_of (processRetryQueue e s)))"
proof -
  define s0 where "s0 = record_event [RetryPass (length (retryQueue s))] s"
  define w where "w = max 1 (concurrency s div 2)"
  define rb where "rb = ceil_div (length (retryQueue s0)) w"
  let ?L = "processRetryQueue_loop e (nat w) rb 0 (0, 0) s0"
  have ne: "length (retryQueue s) \<noteq> 0" using r by auto
  have w1: "1 \<le> nat w" "int (nat w) = w" by (simp_all add: w_def)
  have "ev \<in> set (history (loop_session ?L))"
  proof (rule quiet_retry_loop_fetches [where r = r])
    show "\<And>pt. \<not> stopAt e pt" by (rule quiet)
    show "isRunning s0" using run by (simp add: s0_def)
    show "1 \<le> nat w" by (rule w1(1))
    show "1 \<le> maxRetries (config s0)" using mr by (simp add: s0_def)
    show "rb = ceil_div (length (retryQueue s0)) (int (nat w))" unfolding w1(2) by (rule rb_def)
    show "r \<in> set (drop (0 * nat w) (retryQueue s0))" using r by (simp add: s0_def)
    show "ev \<in> set (snd (executeRequest_loop e (config s0) Retry r 0))"
      using ev by (simp add: s0_def)
  qed
  moreover have "history (session_of (processRetryQueue e s)) = history (loop_session ?L)"
    using ne
    by (cases ?L)
       (auto simp add: processRetryQueue_def Let_def s0_def w_def rb_def split: prod.splits)
  ultimately show ?thesis by simp
qed

lemma start_history_after_retry:
  assumes "\<not> isRunning s"
    and "retryQueue (processOptimizedBatches e (s\<lparr>isRunning := True\<rparr>)) \<noteq> []"
  shows "history (session_of (start e s)) =
           history (session_of (processRetryQueue e (processOptimizedBatches e (s\<lparr>isRunning := True\<rparr>))))"
  using assms
  by (cases "processRetryQueue e (processOptimizedBatches e (s\<lparr>isRunning := True\<rparr>))")
     (simp_all add: start_def Let_def)

text \<open>
  C4, as the code has it. In a session that is not stopped, with three attempts allowed,
  at most 1000 impressions and HTTP 500 for every \<open>fetch\<close>: \<open>executeRequest\<close> makes three
  attempts, with a back-off after the first and the second, and fails; after the primary
  pass every request is in the retry queue and every retry counter is 1 (the counter
  counts the terminal failure, not the attempts); the retry pass then submits every
  request again, with three more attempts each; and every request was counted as sent.
\<close>

theorem all_500_session:
  assumes "maxRetries c = 3" and "0 \<le> impressions c" and "impressions c \<le> 1000"
    and "\<forall>p r a. fetch e p r a = Http 500" and "\<forall>pt. \<not> stopAt e pt"
  shows "(\<forall>p r. executeRequest_loop e c p r 0 =
            (Failure,
             [Fetch p r 0,
              Sleep Backoff (backoffDelay 1 (mathRandom e (BackoffDraw p r 1))),
              Fetch p r 1,
              Sleep Backoff (backoffDelay 2 (mathRandom e (BackoffDraw p r 2))),
              Fetch p r 2]))
         \<and> retryQueue (processOptimizedBatches e ((TrafficSession c)\<lparr>isRunning := True\<rparr>)) =
             [0..<nat (impressions c)]
         \<and> (\<forall>q\<in>set (requestQueue (processOptimizedBatches e ((TrafficSession c)\<lparr>isRunning := True\<rparr>))).
               retryCount q = 1)
         \<and> (\<forall>r<nat (impressions c). \<forall>a<3.
               Fetch Retry r a \<in> set (history (session_of (start e (TrafficSession c)))))
         \<and> int (sent (stats (session_of (start e (TrafficSession c))))) =
             total (stats (session_of (start e (TrafficSession c))))"
proof -
  let ?s0 = "(TrafficSession c)\<lparr>isRunning := True\<rparr>"
  let ?s1 = "processOptimizedBatches e ?s0"
  let ?n = "nat (impressions c)"
  have quiet: "\<And>pt. \<not> stopAt e pt" using assms(5) by blast
  have thrown: "\<And>p r a. classify (fetch e p r a) = Thrown"
    using assms(4) by (simp add: classify_def ok_def)
  have three: "\<And>p r. executeRequest_loop e c p r 0 =
            (Failure,
             [Fetch p r 0,
              Sleep Backoff (backoffDelay 1 (mathRandom e (BackoffDraw p r 1))),
              Fetch p r 1,
              Sleep Backoff (backoffDelay 2 (mathRandom e (BackoffDraw p r 2))),
              Fetch p r 2])"
    using assms(1) thrown by (intro executeRequest_loop_three_failures) simp_all
  have w: "1 \<le> concurrency ?s0" using TrafficSession_concurrency [of c] by simp
  have len: "length (requestQueue ?s0) = ?n" by simp
  have prim: "isRunning ?s1 \<and> config ?s1 = config ?s0
         \<and> retryQueue ?s1 = [0..<length (requestQueue ?s0)]
         \<and> (\<forall>i<length (requestQueue ?s0). retryCount (requestQueue ?s1 ! i) = 1)"
    using quiet _ _ w
  proof (rule all_failed_primary_pass)
    show "isRunning ?s0" by simp
    show "1 \<le> maxRetries (config ?s0)" using assms(1) by simp
    show "length (requestQueue ?s0) \<le> 1000" using assms(3) by simp
    show "retryQueue ?s0 = []" by simp
    show "\<forall>i<length (requestQueue ?s0). retryCount (requestQueue ?s0 ! i) = 0" by simp
    show "\<And>r. fst (executeRequest_loop e (config ?s0) Primary r 0) = Failure"
      using three by simp
  qed
  have len1: "length (requestQueue ?s1) = ?n" by (simp add: processOptimizedBatches_def)
  have q: "retryQueue ?s1 = [0..<?n]" using prim by simp
  have counters: "\<forall>q\<in>set (requestQueue ?s1). retryCount q = 1"
    using prim len1 by (auto simp add: in_set_conv_nth)
  have retried: "\<forall>r<?n. \<forall>a<3. Fetch Retry r a \<in> set (history (session_of (start e (TrafficSession c))))"
  proof (intro allI impI)
    fix r a :: nat
    assume r: "r < ?n" and a: "a < 3"
    have ne: "retryQueue ?s1 \<noteq> []" using q r by auto
    have "a = 0 \<or> a = 1 \<or> a = 2" using a by auto
    then have "Fetch Retry r a \<in> set (snd (executeRequest_loop e (config ?s1) Retry r 0))"
      using three [of Retry r] prim by auto
    then have "Fetch Retry r a \<in> set (history (session_of (processRetryQueue e ?s1)))"
      using quiet prim assms(1) q r by (intro quiet_retry_pass_fetches [where r = r]) simp_all
    then show "Fetch Retry r a \<in> set (history (session_of (start e (TrafficSession c))))"
      using ne by (simp add: start_history_after_retry)
  qed
  have "sent (stats ?s1) = sent (stats ?s0) + length (requestQueue ?s0)"
    using quiet_primary_pass [OF quiet, of ?s0] assms(1) w by simp
  then have sent: "int (sent (stats (session_of (start e (TrafficSession c))))) = impressions c"
    using assms(2) by (simp add: start_sent)
  have "total (stats (session_of (start e (TrafficSession c)))) = impressions c"
  proof (rule start_rule)
    show "\<not> isRunning (TrafficSession c)" by simp
    show "total (stats ?s1) = impressions c" by (simp add: processOptimizedBatches_def)
  next
    fix t :: session
    assume t: "total (stats t) = impressions c"
    show "total (stats (session_of (processRetryQueue e t))) = impressions c"
      by (rule processRetryQueue_invariant) (simp_all add: t)
    show "total (stats (complete e t)) = impressions c" using t by simp
  qed
  then show ?thesis using three q counters retried sent by simp
qed

theorem all_500_session_witness:
  "maxRetries two_requests = 3 \<and> 0 \<le> impressions two_requests \<and> impressions two_requests \<le> 1000
   \<and> (\<forall>p r a. fetch (constant_env (Http 500)) p r a = Http 500)
   \<and> (\<forall>pt. \<not> stopAt (constant_env (Http 500)) pt)
   \<and> fst (executeRequest_loop (constant_env (Http 500)) two_requests Primary 1 0) = Failure
   \<and> retryQueue (processOptimizedBatches (constant_env (Http 500))
        ((TrafficSession two_requests)\<lparr>isRunning := True\<rparr>)) = [0, 1]
   \<and> Fetch Retry 1 2 \<in> set (history (session_of
        (start (constant_env (Http 500)) (TrafficSession two_requests))))
   \<and> sent (stats (session_of (start (constant_env (Http 500)) (TrafficSession two_requests)))) = 2"
proof -
  have h1: "maxRetries two_requests = 3" by (simp add: two_requests_def)
  have h2: "0 \<le> impressions two_requests" "impressions two_requests \<le> 1000"
      "impressions two_requests = 2"
    by (simp_all add: two_requests_def)
  have h4: "\<forall>p r a. fetch (constant_env (Http 500)) p r a = Http 500"
    by (simp add: constant_env_def)
  have h5: "\<forall>pt. \<not> stopAt (constant_env (Http 500)) pt"
    by (simp add: constant_env_def)
  have u: "[0..<nat 2] = [0, 1]" by (simp add: upt_rec)
  have t: "total (stats (session_of (start (constant_env (Http 500)) (TrafficSession two_requests)))) = 2"
    by code_simp
  note a = all_500_session [OF h1 h2(1) h2(2) h4 h5]
  have r: "Fetch Retry 1 2 \<in> set (history (session_of
        (start (constant_env (Http 500)) (TrafficSession two_requests))))"
    using a h2(3) by simp
  from a h1 h2 h4 h5 u t r show ?thesis by simp
qed

text \<open>
  C4 as stated fails. Two requests, three attempts allowed, HTTP 500 for every
  \<open>fetch\<close>: after the primary pass both requests are in the retry queue with counter 1,
  not 3; the retry pass submits them again; and the session ends with \<open>failed = 4\<close>
  for a total of 2.
\<close>

theorem all_500_counter_is_one:
  "maxRetries two_requests = 3
   \<and> retryQueue (processOptimizedBatches (constant_env (Http 500))
        ((TrafficSession two_requests)\<lparr>isRunning := True\<rparr>)) = [0, 1]
   \<and> map retryCount (requestQueue (processOptimizedBatches (constant_env (Http 500))
        ((TrafficSession two_requests)\<lparr>isRunning := True\<rparr>))) = [1, 1]
   \<and> Fetch Retry 0 0 \<in> set (history (session_of
        (start (constant_env (Http 500)) (TrafficSession two_requests))))
   \<and> failed (stats (session_of (start (constant_env (Http 500)) (TrafficSession two_requests)))) = 4
   \<and> total (stats (session_of (start (constant_env (Http 500)) (TrafficSession two_requests)))) = 2"
  by code_simp
subsection \<open>Back-off\<close>








subsection \<open>The executor's trace in the history\<close>



























end
